theory Spec2Isabelle
  imports Main "HOL-Library.Word" "HOL-Library.Multiset"
begin

section \<open>Data model of \<^verbatim>\<open>sudoku_module.h\<close>\<close>

text \<open>
  \<^verbatim>\<open>typedef struct SudokuBoard { int cell[9][9]; } SudokuBoard;\<close>
  The two-dimensional array is a function of the row and the column index. The code reads
  and writes \<^verbatim>\<open>cell[r][c]\<close> only after both indices have been checked or
  produced by a loop over \<^verbatim>\<open>0..8\<close>, so the model never looks at an index of 9 or more.
  The cells are C \<^verbatim>\<open>int\<close>s that are only compared and copied, never computed with.
\<close>

record SudokuBoard =
  cell :: "nat \<Rightarrow> nat \<Rightarrow> int"

text \<open>
  \<^verbatim>\<open>SudokuDifficulty\<close> is a C enum: any \<^verbatim>\<open>int\<close> can be passed for it, and
  \<^verbatim>\<open>sudoku_holes_for_difficulty\<close> has a \<^verbatim>\<open>default\<close> branch for that case.
\<close>

type_synonym SudokuDifficulty = int

definition SUDOKU_DIFFICULTY_EASY :: SudokuDifficulty where
  "SUDOKU_DIFFICULTY_EASY = 0"

definition SUDOKU_DIFFICULTY_MEDIUM :: SudokuDifficulty where
  "SUDOKU_DIFFICULTY_MEDIUM = 1"

definition SUDOKU_DIFFICULTY_HARD :: SudokuDifficulty where
  "SUDOKU_DIFFICULTY_HARD = 2"

datatype SudokuResult =
  SUDOKU_OK | SUDOKU_ERR_INVALID_ARG | SUDOKU_ERR_UNSOLVABLE | SUDOKU_ERR_IO

section \<open>The random stream\<close>

text \<open>
  The module keeps \<^verbatim>\<open>static int g_seeded\<close> and uses the C library's generator through
  \<^verbatim>\<open>srand\<close> and \<^verbatim>\<open>rand\<close>. The library is not part of the repository: the state
  of its generator is modelled as the sequence of the values the coming calls of
  \<^verbatim>\<open>rand()\<close> return (all of them non-negative), and \<^verbatim>\<open>srand\<close> is a parameter
  \<open>srand\<close> of every operation that may seed, giving the sequence a seed starts.
\<close>

record rng_state =
  g_seeded :: bool
  upcoming :: "nat \<Rightarrow> nat"

type_synonym srand_fn = "32 word \<Rightarrow> nat \<Rightarrow> nat"

definition sudoku_seed :: "srand_fn \<Rightarrow> 32 word \<Rightarrow> rng_state \<Rightarrow> rng_state" where
  "sudoku_seed srand seed st = \<lparr>g_seeded = True, upcoming = srand seed\<rparr>"

definition seed_if_needed :: "srand_fn \<Rightarrow> rng_state \<Rightarrow> rng_state" where
  "seed_if_needed srand st = (if \<not> g_seeded st then sudoku_seed srand 0 st else st)"

definition rand :: "rng_state \<Rightarrow> nat \<times> rng_state" where
  "rand st = (upcoming st 0, st\<lparr>upcoming := (\<lambda>n. upcoming st (Suc n))\<rparr>)"

definition rand_int :: "nat \<Rightarrow> rng_state \<Rightarrow> nat \<times> rng_state" where
  "rand_int max_exclusive st = (let (x, st') = rand st in (x mod max_exclusive, st'))"

text \<open>
  \<^verbatim>\<open>for (int i = n - 1; i > 0; --i) { j = rand_int(i + 1); swap a[i], a[j]; }\<close>
  The loop variable counts down to 1; \<open>shuffle_loop i\<close> is the loop entered with that \<open>i\<close>.
\<close>

fun shuffle_loop :: "nat \<Rightarrow> int list \<Rightarrow> rng_state \<Rightarrow> int list \<times> rng_state" where
  "shuffle_loop 0 a st = (a, st)"
| "shuffle_loop (Suc k) a st =
     (let i = Suc k;
          (j, st') = rand_int (i + 1) st;
          tmp = a ! i;
          a1 = a[i := a ! j];
          a2 = a1[j := tmp]
      in shuffle_loop k a2 st')"

definition shuffle_ints :: "int list \<Rightarrow> nat \<Rightarrow> rng_state \<Rightarrow> int list \<times> rng_state" where
  "shuffle_ints a n st = shuffle_loop (n - 1) a st"

section \<open>Board helpers and the validator\<close>

text \<open>The assignment \<^verbatim>\<open>board->cell[r][c] = v\<close>.\<close>

definition set_cell :: "SudokuBoard \<Rightarrow> nat \<Rightarrow> nat \<Rightarrow> int \<Rightarrow> SudokuBoard" where
  "set_cell b r c v = b\<lparr>cell := (cell b)(r := (cell b r)(c := v))\<rparr>"

text \<open>
  The nested loops \<^verbatim>\<open>for r in 0..8: for c in 0..8\<close> visit the cells in row-major
  order.
\<close>

definition cells :: "(nat \<times> nat) list" where
  "cells = List.product [0..<9] [0..<9]"

text \<open>A pointer that may be null is an \<open>option\<close>; a board written in place is returned.\<close>

definition sudoku_clear :: "SudokuBoard option \<Rightarrow> SudokuBoard option" where
  "sudoku_clear board =
     (case board of None \<Rightarrow> None
      | Some b \<Rightarrow> Some (fold (\<lambda>(r, c) b'. set_cell b' r c 0) cells b))"

text \<open>
  \<^verbatim>\<open>memcpy(dst->cell, src->cell, sizeof(dst->cell))\<close> overwrites the only field of
  \<^verbatim>\<open>*dst\<close>. The two pointers are taken to point to different boards, as \<^verbatim>\<open>memcpy\<close>
  requires.
\<close>

definition sudoku_copy :: "SudokuBoard option \<Rightarrow> SudokuBoard option \<Rightarrow> SudokuBoard option" where
  "sudoku_copy dst src =
     (case (dst, src) of
        (Some d, Some s) \<Rightarrow> Some (d\<lparr>cell := cell s\<rparr>)
      | _ \<Rightarrow> dst)"

definition is_in_range_1_9 :: "int \<Rightarrow> bool" where
  "is_in_range_1_9 v = (v \<ge> 1 \<and> v \<le> 9)"

definition sudoku_can_place :: "SudokuBoard option \<Rightarrow> int \<Rightarrow> int \<Rightarrow> int \<Rightarrow> bool" where
  "sudoku_can_place board row col val =
     (case board of None \<Rightarrow> False
      | Some b \<Rightarrow>
          if row < 0 \<or> row \<ge> 9 \<or> col < 0 \<or> col \<ge> 9 then False
          else if \<not> is_in_range_1_9 val then False
          else if list_ex (\<lambda>i. cell b (nat row) i = val \<or> cell b i (nat col) = val) [0..<9]
            then False
          else
            (let br = (row div 3) * 3;
                 bc = (col div 3) * 3
             in if list_ex (\<lambda>r. list_ex (\<lambda>c. cell b r c = val) [nat bc..<nat (bc + 3)])
                     [nat br..<nat (br + 3)]
                then False else True))"

definition sudoku_is_valid_partial :: "SudokuBoard option \<Rightarrow> bool" where
  "sudoku_is_valid_partial board =
     (case board of None \<Rightarrow> False
      | Some b \<Rightarrow>
          list_all (\<lambda>(r, c).
              let v = cell b r c in
              if v = 0 then True
              else if \<not> is_in_range_1_9 v then False
              else (let tmp = set_cell b r c 0
                    in sudoku_can_place (Some tmp) (int r) (int c) v))
            cells)"

section \<open>The solver\<close>

definition find_empty_cell :: "SudokuBoard \<Rightarrow> (nat \<times> nat) option" where
  "find_empty_cell b = List.find (\<lambda>(r, c). cell b r c = 0) cells"

text \<open>
  \<^verbatim>\<open>solve_backtrack\<close> returns 1 (solved) or 0 and leaves its result in the board it was
  given. \<open>try_candidates\<close> is its loop \<^verbatim>\<open>for (i = 0; i < 9; ++i) { v = nums[i]; ... }\<close> over
  the nine shuffled candidates still to be tried. The board the loop goes on with after a
  failed recursive call is the board that call left behind, with the cell reset to 0.
\<close>

function solve_backtrack :: "SudokuBoard \<Rightarrow> rng_state \<Rightarrow> bool \<times> SudokuBoard \<times> rng_state"
  and try_candidates ::
    "int list \<Rightarrow> nat \<Rightarrow> nat \<Rightarrow> SudokuBoard \<Rightarrow> rng_state \<Rightarrow> bool \<times> SudokuBoard \<times> rng_state"
where
  "solve_backtrack b st =
     (case find_empty_cell b of
        None \<Rightarrow> (True, b, st)
      | Some (row, col) \<Rightarrow>
          (let (nums, st') = shuffle_ints [1, 2, 3, 4, 5, 6, 7, 8, 9] 9 st
           in try_candidates nums row col b st'))"
| "try_candidates [] row col b st = (False, b, st)"
| "try_candidates (v # vs) row col b st =
     (if sudoku_can_place (Some b) (int row) (int col) v then
        (case solve_backtrack (set_cell b row col v) st of
           (True, b', st') \<Rightarrow> (True, b', st')
         | (False, b', st') \<Rightarrow> try_candidates vs row col (set_cell b' row col 0) st')
      else try_candidates vs row col b st)"
  by pat_completeness auto

section \<open>Facts needed for the termination of the solver\<close>

lemma cell_set_cell [simp]:
  "cell (set_cell b r c v) r' c' = (if r' = r \<and> c' = c then v else cell b r' c')"
  by (simp add: set_cell_def)

lemma set_cell_twice [simp]: "set_cell (set_cell b r c v) r c w = set_cell b r c w"
  by (simp add: set_cell_def)

lemma set_cell_same: "cell b r c = v \<Longrightarrow> set_cell b r c v = b"
  by (auto simp add: set_cell_def)

lemma distinct_cells: "distinct cells"
  by (simp add: cells_def distinct_product)

lemma set_cells: "set cells = {0..<9} \<times> {0..<9}"
  by (simp add: cells_def)

text \<open>The empty cells of a board: what the search has left to fill.\<close>

definition empties :: "SudokuBoard \<Rightarrow> (nat \<times> nat) set" where
  "empties b = {p \<in> set cells. cell b (fst p) (snd p) = 0}"

lemma finite_empties: "finite (empties b)"
  by (simp add: empties_def)

lemma empties_fill:
  assumes "r < 9" "c < 9" "v \<noteq> 0"
  shows "empties (set_cell b r c v) = empties b - {(r, c)}"
  using assms by (auto simp add: empties_def set_cells)

lemma empties_zero:
  assumes "r < 9" "c < 9"
  shows "empties (set_cell b r c 0) = insert (r, c) (empties b)"
  using assms by (auto simp add: empties_def set_cells)

lemma card_empties_fill:
  assumes "r < 9" "c < 9" "v \<noteq> 0"
  shows "card (empties (set_cell b r c v)) < card (empties (set_cell b r c 0))"
proof -
  have "empties (set_cell b r c v) = empties (set_cell b r c 0) - {(r, c)}"
    using assms by (auto simp add: empties_def set_cells)
  moreover have "(r, c) \<in> empties (set_cell b r c 0)"
    using assms by (simp add: empties_zero)
  ultimately show ?thesis
    by (metis card_Diff1_less finite_empties)
qed

lemma find_empty_cell_Some:
  "find_empty_cell b = Some (r, c) \<Longrightarrow> r < 9 \<and> c < 9 \<and> cell b r c = 0"
  by (auto simp add: find_empty_cell_def find_Some_iff set_cells dest!: nth_mem
      simp del: nth_mem)

lemma can_place_range:
  "sudoku_can_place (Some b) (int r) (int c) v \<Longrightarrow> r < 9 \<and> c < 9 \<and> 1 \<le> v \<and> v \<le> 9"
  by (simp add: sudoku_can_place_def is_in_range_1_9_def split: if_splits)

text \<open>
  Where the search is defined, a failed search has put back every cell it wrote. The
  termination of the candidate loop rests on this: the loop goes on with the board the
  failed recursive call returns.
\<close>

lemma restore_dom:
  "solve_backtrack_try_candidates_dom (Inl (b, st)) \<Longrightarrow>
     solve_backtrack b st = (False, b', st') \<Longrightarrow> b' = b"
  "solve_backtrack_try_candidates_dom (Inr (vs, row, col, b, st)) \<Longrightarrow>
     try_candidates vs row col b st = (False, b', st') \<Longrightarrow>
     b' = b \<or> b' = set_cell b row col 0"
proof (induction b st and vs row col b st arbitrary: b' st' and b' st'
    rule: solve_backtrack_try_candidates.pinduct)
  case (1 b st)
  show ?case
  proof (cases "find_empty_cell b")
    case None
    with 1 show ?thesis by (simp add: solve_backtrack.psimps)
  next
    case (Some p)
    obtain row col where p: "p = (row, col)" by (cases p)
    obtain nums st1 where sh: "shuffle_ints [1, 2, 3, 4, 5, 6, 7, 8, 9] 9 st = (nums, st1)"
      by (cases "shuffle_ints [1, 2, 3, 4, 5, 6, 7, 8, 9] 9 st")
    from 1(1,3) Some p sh have "try_candidates nums row col b st1 = (False, b', st')"
      by (simp add: solve_backtrack.psimps)
    with 1(2)[OF Some p[symmetric] refl sh[symmetric]]
    have "b' = b \<or> b' = set_cell b row col 0" by blast
    moreover have "cell b row col = 0"
      using find_empty_cell_Some Some p by simp
    ultimately show ?thesis by (auto simp add: set_cell_same)
  qed
next
  case (2 row col b st)
  then show ?case by (simp add: try_candidates.psimps)
next
  case (3 v vs row col b st)
  show ?case
  proof (cases "sudoku_can_place (Some b) (int row) (int col) v")
    case False
    with 3(1,5) have "try_candidates vs row col b st = (False, b', st')"
      by (simp add: try_candidates.psimps)
    with 3(4)[OF False] show ?thesis by blast
  next
    case placed: True
    obtain ok b1 st1 where r: "solve_backtrack (set_cell b row col v) st = (ok, b1, st1)"
      by (cases "solve_backtrack (set_cell b row col v) st")
    show ?thesis
    proof (cases ok)
      case True
      with 3(1,5) placed r show ?thesis by (simp add: try_candidates.psimps)
    next
      case False
      with r 3(2)[OF placed] have b1: "b1 = set_cell b row col v" by auto
      from 3(1,5) placed r False
      have "try_candidates vs row col (set_cell b1 row col 0) st1 = (False, b', st')"
        by (simp add: try_candidates.psimps)
      moreover have "ok = False" using False by simp
      ultimately
      have "b' = set_cell b1 row col 0 \<or> b' = set_cell (set_cell b1 row col 0) row col 0"
        using 3(3)[OF placed r[symmetric] _ refl] by blast
      with b1 show ?thesis by simp
    qed
  qed
qed

termination solve_backtrack
proof (relation "inv_image (less_than <*lex*> less_than)
    (\<lambda>x. case x of
        Inl (b, st) \<Rightarrow> (card (empties b) + 1, 0)
      | Inr (vs, row, col, b, st) \<Rightarrow> (card (empties (set_cell b row col 0)), length vs + 1))",
    goal_cases)
  case 1
  show ?case by (intro wf_inv_image wf_lex_prod wf_less_than)
next
  case (2 b st x2 x y xa xb ya)
  then have "cell b x y = 0" using find_empty_cell_Some by simp
  then show ?case by (simp add: set_cell_same)
next
  case (3 v vs row col b st)
  then show ?case
    using card_empties_fill[of row col v b] can_place_range[of b row col v] by auto
next
  case (4 v vs row col b st x y xa ya)
  then have "xa = set_cell b row col v"
    using restore_dom(1)[of "set_cell b row col v" st xa ya] by simp
  then show ?case by simp
next
  case (5 v vs row col b st)
  show ?case by simp
qed

declare solve_backtrack.simps [simp del]

section \<open>Solving and generating\<close>

definition sudoku_solve ::
  "srand_fn \<Rightarrow> SudokuBoard option \<Rightarrow> rng_state \<Rightarrow> SudokuResult \<times> SudokuBoard option \<times> rng_state"
where
  "sudoku_solve srand in_out_board st =
     (case in_out_board of
        None \<Rightarrow> (SUDOKU_ERR_INVALID_ARG, None, st)
      | Some b \<Rightarrow>
          (let st1 = seed_if_needed srand st in
           if \<not> sudoku_is_valid_partial (Some b) then (SUDOKU_ERR_UNSOLVABLE, Some b, st1)
           else
             (case solve_backtrack b st1 of
                (True, b', st2) \<Rightarrow> (SUDOKU_OK, Some b', st2)
              | (False, b', st2) \<Rightarrow> (SUDOKU_ERR_UNSOLVABLE, Some b', st2))))"

text \<open>
  \<^verbatim>\<open>sudoku_clear\<close> returns nothing; the model reads the cleared board off its result, and
  the branch for a null board after the null check is never taken.
\<close>

definition sudoku_generate_solution ::
  "srand_fn \<Rightarrow> SudokuBoard option \<Rightarrow> rng_state \<Rightarrow> SudokuResult \<times> SudokuBoard option \<times> rng_state"
where
  "sudoku_generate_solution srand out_solution st =
     (case out_solution of
        None \<Rightarrow> (SUDOKU_ERR_INVALID_ARG, None, st)
      | Some b0 \<Rightarrow>
          (let st1 = seed_if_needed srand st in
           case sudoku_clear (Some b0) of
             None \<Rightarrow> (SUDOKU_ERR_INVALID_ARG, None, st1)
           | Some b \<Rightarrow>
               (case solve_backtrack b st1 of
                  (True, b', st2) \<Rightarrow> (SUDOKU_OK, Some b', st2)
                | (False, b', st2) \<Rightarrow> (SUDOKU_ERR_UNSOLVABLE, Some b', st2))))"

text \<open>\<^verbatim>\<open>int holes = 0; for r: for c: if (b->cell[r][c] == 0) ++holes;\<close>\<close>

definition count_holes :: "SudokuBoard \<Rightarrow> int" where
  "count_holes b = fold (\<lambda>(r, c) holes. if cell b r c = 0 then holes + 1 else holes) cells 0"

definition sudoku_holes_for_difficulty :: "SudokuDifficulty \<Rightarrow> int" where
  "sudoku_holes_for_difficulty difficulty =
     (if difficulty = SUDOKU_DIFFICULTY_EASY then 35
      else if difficulty = SUDOKU_DIFFICULTY_MEDIUM then 45
      else if difficulty = SUDOKU_DIFFICULTY_HARD then 55
      else 45)"

text \<open>
  The removal loop of \<^verbatim>\<open>sudoku_generate_puzzle\<close>. Its state is the local \<^verbatim>\<open>tries\<close>, the
  board \<^verbatim>\<open>*out_puzzle\<close> and the random stream; \<open>carve_guard\<close> is the condition of the
  \<^verbatim>\<open>while\<close>, \<open>carve_body\<close> one pass through its body (the \<^verbatim>\<open>continue\<close> ends the pass).
  \<^verbatim>\<open>tmp\<close> is a local board that \<^verbatim>\<open>sudoku_copy\<close> overwrites with the puzzle; what it
  held before is never read, and the model starts it as a board \<open>tmp0\<close> of all zeros.
\<close>

type_synonym carve_state = "nat \<times> SudokuBoard \<times> rng_state"

definition max_tries :: nat where
  "max_tries = 2000"

definition carve_guard :: "int \<Rightarrow> carve_state \<Rightarrow> bool" where
  "carve_guard target_holes s =
     (case s of (tries, p, st) \<Rightarrow> count_holes p < target_holes \<and> tries < max_tries)"

definition carve_body :: "srand_fn \<Rightarrow> carve_state \<Rightarrow> carve_state" where
  "carve_body srand s =
     (case s of (tries, p, st) \<Rightarrow>
        (let tries' = tries + 1;
             (rr, st1) = rand_int 9 st;
             (cc, st2) = rand_int 9 st1
         in if cell p rr cc = 0 then (tries', p, st2)
            else
              (let saved = cell p rr cc;
                   p1 = set_cell p rr cc 0;
                   tmp0 = \<lparr>cell = (\<lambda>r c. 0)\<rparr>;
                   tmp = sudoku_copy (Some tmp0) (Some p1);
                   (res, tmp', st3) = sudoku_solve srand tmp st2
               in if res \<noteq> SUDOKU_OK then (tries', set_cell p1 rr cc saved, st3)
                  else (tries', p1, st3))))"

function carve_loop :: "srand_fn \<Rightarrow> int \<Rightarrow> carve_state \<Rightarrow> carve_state" where
  "carve_loop srand target_holes s =
     (if carve_guard target_holes s then carve_loop srand target_holes (carve_body srand s)
      else s)"
  by pat_completeness auto

lemma fst_carve_body: "fst (carve_body srand s) = fst s + 1"
  by (simp add: carve_body_def Let_def split: prod.splits)

termination carve_loop
proof (relation "measure (\<lambda>(srand, target_holes, s). max_tries - fst s)", goal_cases)
  case 1
  show ?case by simp
next
  case (2 srand target_holes s)
  then show ?case
    by (auto simp add: carve_guard_def fst_carve_body split: prod.splits)
qed

declare carve_loop.simps [simp del]

text \<open>
  \<open>sudoku_generate_puzzle_run\<close> is the function with the final value of its local
  \<^verbatim>\<open>tries\<close> beside what it returns and leaves in the two boards;
  \<open>sudoku_generate_puzzle\<close> forgets the counter. The two pointers are taken to point to
  different boards. The branch for \<^verbatim>\<open>sudoku_copy\<close> leaving a null puzzle is never taken:
  both pointers have been checked.
\<close>

definition sudoku_generate_puzzle_run ::
  "srand_fn \<Rightarrow> SudokuBoard option \<Rightarrow> SudokuBoard option \<Rightarrow> SudokuDifficulty \<Rightarrow> rng_state \<Rightarrow>
     (SudokuResult \<times> SudokuBoard option \<times> SudokuBoard option \<times> rng_state) \<times> nat"
where
  "sudoku_generate_puzzle_run srand out_puzzle out_solution difficulty st =
     (if out_puzzle = None \<or> out_solution = None
      then ((SUDOKU_ERR_INVALID_ARG, out_puzzle, out_solution, st), 0)
      else
        (let st0 = seed_if_needed srand st;
             (r, solution, st1) = sudoku_generate_solution srand out_solution st0
         in if r \<noteq> SUDOKU_OK then ((r, out_puzzle, solution, st1), 0)
            else
              (case sudoku_copy out_puzzle solution of
                 None \<Rightarrow> ((SUDOKU_OK, None, solution, st1), 0)
               | Some p0 \<Rightarrow>
                   (let target_holes = sudoku_holes_for_difficulty difficulty;
                        (tries, p, st2) = carve_loop srand target_holes (0, p0, st1)
                    in ((SUDOKU_OK, Some p, solution, st2), tries)))))"

definition sudoku_generate_puzzle ::
  "srand_fn \<Rightarrow> SudokuBoard option \<Rightarrow> SudokuBoard option \<Rightarrow> SudokuDifficulty \<Rightarrow> rng_state \<Rightarrow>
     SudokuResult \<times> SudokuBoard option \<times> SudokuBoard option \<times> rng_state"
where
  "sudoku_generate_puzzle srand out_puzzle out_solution difficulty st =
     fst (sudoku_generate_puzzle_run srand out_puzzle out_solution difficulty st)"

section \<open>The rules of the game\<close>

text \<open>
  What the specification calls the validity rules, stated on the grid and independently of
  the code: the row, the column and the 3x3 box of a cell, a board without a repeated
  digit, a board that is filled, and a board that keeps the givens of another.
\<close>

definition same_box :: "nat \<Rightarrow> nat \<Rightarrow> nat \<Rightarrow> nat \<Rightarrow> bool" where
  "same_box r c r' c' = (r div 3 = r' div 3 \<and> c div 3 = c' div 3)"

definition appears_in_row :: "SudokuBoard \<Rightarrow> nat \<Rightarrow> int \<Rightarrow> bool" where
  "appears_in_row b row v = (\<exists>c\<in>{0..<9}. cell b row c = v)"

definition appears_in_col :: "SudokuBoard \<Rightarrow> nat \<Rightarrow> int \<Rightarrow> bool" where
  "appears_in_col b col v = (\<exists>r\<in>{0..<9}. cell b r col = v)"

definition appears_in_box :: "SudokuBoard \<Rightarrow> nat \<Rightarrow> nat \<Rightarrow> int \<Rightarrow> bool" where
  "appears_in_box b row col v =
     (\<exists>r\<in>{0..<9}. \<exists>c\<in>{0..<9}. same_box row col r c \<and> cell b r c = v)"

text \<open>Two different cells that share a row, a column or a box.\<close>

definition peers :: "nat \<Rightarrow> nat \<Rightarrow> nat \<Rightarrow> nat \<Rightarrow> bool" where
  "peers r c r' c' = ((r, c) \<noteq> (r', c') \<and> (r = r' \<or> c = c' \<or> same_box r c r' c'))"

definition no_repeats :: "SudokuBoard \<Rightarrow> bool" where
  "no_repeats b =
     (\<forall>r\<in>{0..<9}. \<forall>c\<in>{0..<9}. \<forall>r'\<in>{0..<9}. \<forall>c'\<in>{0..<9}.
        cell b r c \<noteq> 0 \<and> peers r c r' c' \<longrightarrow> cell b r' c' \<noteq> cell b r c)"

definition cells_in_0_9 :: "SudokuBoard \<Rightarrow> bool" where
  "cells_in_0_9 b = (\<forall>r\<in>{0..<9}. \<forall>c\<in>{0..<9}. 0 \<le> cell b r c \<and> cell b r c \<le> 9)"

definition filled_1_9 :: "SudokuBoard \<Rightarrow> bool" where
  "filled_1_9 b = (\<forall>r\<in>{0..<9}. \<forall>c\<in>{0..<9}. 1 \<le> cell b r c \<and> cell b r c \<le> 9)"

definition keeps_givens :: "SudokuBoard \<Rightarrow> SudokuBoard \<Rightarrow> bool" where
  "keeps_givens b b' =
     (\<forall>r\<in>{0..<9}. \<forall>c\<in>{0..<9}. cell b r c \<noteq> 0 \<longrightarrow> cell b' r c = cell b r c)"

text \<open>The zero cells of a board, on the grid itself and not as the code counts them.\<close>

definition zero_cells :: "SudokuBoard \<Rightarrow> (nat \<times> nat) set" where
  "zero_cells b = {p \<in> {0..<9} \<times> {0..<9}. cell b (fst p) (snd p) = 0}"

definition no_empty_cell :: "SudokuBoard \<Rightarrow> bool" where
  "no_empty_cell b = (\<forall>r\<in>{0..<9}. \<forall>c\<in>{0..<9}. cell b r c \<noteq> 0)"

text \<open>What a successful search returns.\<close>

definition solved_from :: "SudokuBoard \<Rightarrow> SudokuBoard \<Rightarrow> bool" where
  "solved_from b b' =
     (no_empty_cell b' \<and> keeps_givens b b' \<and>
      (sudoku_is_valid_partial (Some b) \<longrightarrow> sudoku_is_valid_partial (Some b')))"

text \<open>
  A completion \<open>s\<close> of a board \<open>b\<close>: a filled board without repeats that keeps the
  givens of \<open>b\<close>.
\<close>

definition completes :: "SudokuBoard \<Rightarrow> SudokuBoard \<Rightarrow> bool" where
  "completes s b = (filled_1_9 s \<and> no_repeats s \<and> keeps_givens b s)"

text \<open>A board is solvable when the solver succeeds on it, whatever the random stream.\<close>

definition solvable :: "srand_fn \<Rightarrow> SudokuBoard \<Rightarrow> bool" where
  "solvable srand b = (\<forall>st. fst (sudoku_solve srand (Some b) st) = SUDOKU_OK)"

section \<open>Boards and streams to run the code on\<close>

text \<open>Boards written row by row, and read back.\<close>

definition board_of_rows :: "int list list \<Rightarrow> SudokuBoard" where
  "board_of_rows rows = \<lparr>cell = (\<lambda>r c. rows ! r ! c)\<rparr>"

definition rows_of :: "SudokuBoard \<Rightarrow> int list list" where
  "rows_of b = map (\<lambda>r. map (\<lambda>c. cell b r c) [0..<9]) [0..<9]"

text \<open>A filled grid that obeys the rules: the search from the empty board can end in it.\<close>

definition example_grid :: SudokuBoard where
  "example_grid = board_of_rows
     [[2, 3, 4, 5, 6, 7, 8, 9, 1],
      [5, 6, 7, 8, 9, 1, 2, 3, 4],
      [8, 9, 1, 2, 3, 4, 5, 6, 7],
      [3, 2, 5, 4, 7, 6, 9, 1, 8],
      [4, 7, 6, 9, 1, 8, 3, 2, 5],
      [9, 1, 8, 3, 2, 5, 4, 7, 6],
      [6, 4, 2, 7, 5, 3, 1, 8, 9],
      [7, 5, 3, 1, 8, 9, 6, 4, 2],
      [1, 8, 9, 6, 4, 2, 7, 5, 3]]"

text \<open>A generator whose every value is 0, before and after it has been seeded.\<close>

definition srand_zero :: srand_fn where
  "srand_zero seed = (\<lambda>n. 0)"

definition unseeded_zero :: rng_state where
  "unseeded_zero = \<lparr>g_seeded = False, upcoming = (\<lambda>n. 0)\<rparr>"

definition seeded_zero :: rng_state where
  "seeded_zero = \<lparr>g_seeded = True, upcoming = (\<lambda>n. 0)\<rparr>"

text \<open>\<open>example_grid\<close> without its last two cells.\<close>

definition two_holes :: SudokuBoard where
  "two_holes = board_of_rows
     [[2, 3, 4, 5, 6, 7, 8, 9, 1],
      [5, 6, 7, 8, 9, 1, 2, 3, 4],
      [8, 9, 1, 2, 3, 4, 5, 6, 7],
      [3, 2, 5, 4, 7, 6, 9, 1, 8],
      [4, 7, 6, 9, 1, 8, 3, 2, 5],
      [9, 1, 8, 3, 2, 5, 4, 7, 6],
      [6, 4, 2, 7, 5, 3, 1, 8, 9],
      [7, 5, 3, 1, 8, 9, 6, 4, 2],
      [1, 8, 9, 6, 4, 2, 7, 0, 0]]"

text \<open>A board with the digit 5 twice in its first row.\<close>

definition repeated_row :: SudokuBoard where
  "repeated_row = board_of_rows
     [[5, 5, 0, 0, 0, 0, 0, 0, 0],
      [0, 0, 0, 0, 0, 0, 0, 0, 0],
      [0, 0, 0, 0, 0, 0, 0, 0, 0],
      [0, 0, 0, 0, 0, 0, 0, 0, 0],
      [0, 0, 0, 0, 0, 0, 0, 0, 0],
      [0, 0, 0, 0, 0, 0, 0, 0, 0],
      [0, 0, 0, 0, 0, 0, 0, 0, 0],
      [0, 0, 0, 0, 0, 0, 0, 0, 0],
      [0, 0, 0, 0, 0, 0, 0, 0, 0]]"

text \<open>
  A board that breaks no rule and has no completion: the first cell can take 1 or 2, and
  the second cell nothing, its column holding both.
\<close>

definition dead_end :: SudokuBoard where
  "dead_end = board_of_rows
     [[0, 0, 3, 4, 5, 6, 7, 8, 9],
      [0, 0, 0, 0, 0, 0, 0, 0, 0],
      [0, 0, 0, 0, 0, 0, 0, 0, 0],
      [0, 2, 0, 0, 0, 0, 0, 0, 0],
      [0, 1, 0, 0, 0, 0, 0, 0, 0],
      [0, 0, 0, 0, 0, 0, 0, 0, 0],
      [0, 0, 0, 0, 0, 0, 0, 0, 0],
      [0, 0, 0, 0, 0, 0, 0, 0, 0],
      [0, 0, 0, 0, 0, 0, 0, 0, 0]]"

text \<open>An unseeded state whose stream is not the one seed 0 would start.\<close>

definition unseeded_counting :: rng_state where
  "unseeded_counting = \<lparr>g_seeded = False, upcoming = (\<lambda>n. n)\<rparr>"

text \<open>The state after \<open>k\<close> more calls of \<^verbatim>\<open>rand()\<close>.\<close>

definition advance :: "nat \<Rightarrow> rng_state \<Rightarrow> rng_state" where
  "advance k st = st\<lparr>upcoming := (\<lambda>n. upcoming st (n + k))\<rparr>"

text \<open>
  A generator that walks through the 81 cells: its values at \<open>2 t\<close> and \<open>2 t + 1\<close> are the
  row and the column of cell \<open>t mod 81\<close> in row-major order. The search consumes eight
  values at a time and a pass of the removal loop two, so every pick of the loop reads
  such a pair, and a pass that skips is followed by the pick of the next cell.
\<close>

definition cycle_stream :: "nat \<Rightarrow> nat" where
  "cycle_stream n = (if even n then (n div 2 mod 81) div 9 else (n div 2 mod 81) mod 9)"

definition srand_cycle :: srand_fn where
  "srand_cycle seed = cycle_stream"

text \<open>The cell the walk reaches at step \<open>t\<close>, and a seeded state whose stream stands there.\<close>

definition cell_of :: "nat \<Rightarrow> nat \<times> nat" where
  "cell_of t = ((t mod 81) div 9, (t mod 81) mod 9)"

definition at_pos :: "nat \<Rightarrow> rng_state \<Rightarrow> bool" where
  "at_pos t st = (g_seeded st \<and> upcoming st = (\<lambda>n. cycle_stream (n + 2 * t)))"

text \<open>
  What the loop keeps true on this stream, for the solution \<open>s\<close> it started from: the
  last \<open>j\<close> passes skipped the cells \<open>t0, ..., t0 + j - 1\<close>, which are empty, and every
  removal took at most one pass more than there were holes.
\<close>

definition progress :: "SudokuBoard \<Rightarrow> carve_state \<Rightarrow> bool" where
  "progress s x =
     (case x of (tries, p, st) \<Rightarrow>
        keeps_givens p s \<and>
        (\<exists>t0 j. at_pos (t0 + j) st \<and> (\<forall>i<j. cell_of (t0 + i) \<in> empties p) \<and>
           j \<le> card (empties p) \<and>
           2 * tries \<le> card (empties p) * (card (empties p) + 1) + 2 * j))"

text \<open>
  The array of the C struct has 81 cells; the function that models it has values at other
  indices too. \<open>off_grid j b\<close> is \<open>b\<close> with those values replaced by \<open>j\<close>, and
  \<open>observed\<close> is what a caller can see of a run of \<open>sudoku_generate_puzzle\<close>: the result,
  the 81 cells of the puzzle and of the solution row by row, and the state of the stream.
\<close>

definition off_grid :: "(nat \<Rightarrow> nat \<Rightarrow> int) \<Rightarrow> SudokuBoard \<Rightarrow> SudokuBoard" where
  "off_grid j b = \<lparr>cell = (\<lambda>r c. if r < 9 \<and> c < 9 then cell b r c else j r c)\<rparr>"

definition observed ::
  "SudokuResult \<times> SudokuBoard option \<times> SudokuBoard option \<times> rng_state \<Rightarrow>
     SudokuResult \<times> int list list option \<times> int list list option \<times> rng_state"
where
  "observed x =
     (case x of (res, puzzle, solution, st) \<Rightarrow>
        (res, map_option rows_of puzzle, map_option rows_of solution, st))"

section \<open>The validator meets the rules\<close>

lemma box_range_nat:
  "(n::nat) < 9 \<Longrightarrow> {n div 3 * 3..<n div 3 * 3 + 3} = {r \<in> {0..<9}. n div 3 = r div 3}"
  by auto arith+

lemma box_range:
  assumes "0 \<le> row" "row < 9"
  shows "set [nat ((row div 3) * 3)..<nat ((row div 3) * 3 + 3)] =
         {r \<in> {0..<9}. nat row div 3 = r div 3}"
proof -
  have "nat ((row div 3) * 3) = (nat row div 3) * 3"
    using assms by (simp add: nat_div_distrib nat_mult_distrib)
  moreover have "nat ((row div 3) * 3 + 3) = (nat row div 3) * 3 + 3"
    using assms by (simp add: nat_div_distrib nat_mult_distrib nat_add_distrib)
  moreover have "nat row < 9" using assms by simp
  ultimately show ?thesis
    using box_range_nat[of "nat row"] by simp
qed

lemma can_place_spec:
  "sudoku_can_place (Some b) row col val =
     (0 \<le> row \<and> row < 9 \<and> 0 \<le> col \<and> col < 9 \<and> 1 \<le> val \<and> val \<le> 9 \<and>
      \<not> appears_in_row b (nat row) val \<and> \<not> appears_in_col b (nat col) val \<and>
      \<not> appears_in_box b (nat row) (nat col) val)"
proof (cases "0 \<le> row \<and> row < 9 \<and> 0 \<le> col \<and> col < 9 \<and> 1 \<le> val \<and> val \<le> 9")
  case False
  then show ?thesis
    by (auto simp add: sudoku_can_place_def is_in_range_1_9_def)
next
  case True
  have rowcol: "list_ex (\<lambda>i. cell b (nat row) i = val \<or> cell b i (nat col) = val) [0..<9] =
      (appears_in_row b (nat row) val \<or> appears_in_col b (nat col) val)"
    unfolding list_ex_iff appears_in_row_def appears_in_col_def by auto
  have box: "list_ex (\<lambda>r. list_ex (\<lambda>c. cell b r c = val)
        [nat ((col div 3) * 3)..<nat ((col div 3) * 3 + 3)])
        [nat ((row div 3) * 3)..<nat ((row div 3) * 3 + 3)] =
      appears_in_box b (nat row) (nat col) val"
    unfolding list_ex_iff appears_in_box_def same_box_def
    using True by (simp only: box_range) blast
  from True show ?thesis
    by (simp add: sudoku_can_place_def is_in_range_1_9_def rowcol box Let_def)
qed

text \<open>can_place on a board whose cell is empty: no peer holds the value\<close>
lemma can_place_peers:
  assumes "r < 9" "c < 9" "cell b r c = 0"
  shows "sudoku_can_place (Some b) (int r) (int c) v =
     (1 \<le> v \<and> v \<le> 9 \<and>
      (\<forall>r'\<in>{0..<9}. \<forall>c'\<in>{0..<9}. peers r c r' c' \<longrightarrow> cell b r' c' \<noteq> v))"
proof (cases "1 \<le> v \<and> v \<le> 9")
  case False
  then show ?thesis by (auto simp add: can_place_spec)
next
  case True
  then have "v \<noteq> 0" by simp
  have "(\<not> appears_in_row b r v \<and> \<not> appears_in_col b c v \<and> \<not> appears_in_box b r c v) =
      (\<forall>r'\<in>{0..<9}. \<forall>c'\<in>{0..<9}. peers r c r' c' \<longrightarrow> cell b r' c' \<noteq> v)"
    (is "?L = ?R")
  proof
    assume ?L
    then show ?R
      unfolding appears_in_row_def appears_in_col_def appears_in_box_def peers_def
      using assms by auto
  next
    assume R: ?R
    show ?L
      unfolding appears_in_row_def appears_in_col_def appears_in_box_def
    proof (intro conjI notI; elim bexE conjE)
      fix c' assume "c' \<in> {0..<9}" "cell b r c' = v"
      moreover from this \<open>v \<noteq> 0\<close> assms have "peers r c r c'"
        by (auto simp add: peers_def)
      ultimately show False using R assms by auto
    next
      fix r' assume "r' \<in> {0..<9}" "cell b r' c = v"
      moreover from this \<open>v \<noteq> 0\<close> assms have "peers r c r' c"
        by (auto simp add: peers_def)
      ultimately show False using R assms by auto
    next
      fix r' c' assume "r' \<in> {0..<9}" "c' \<in> {0..<9}" "same_box r c r' c'" "cell b r' c' = v"
      moreover from this \<open>v \<noteq> 0\<close> assms have "peers r c r' c'"
        by (auto simp add: peers_def)
      ultimately show False using R by auto
    qed
  qed
  with True assms show ?thesis by (simp add: can_place_spec)
qed

lemma peers_sym: "peers r c r' c' = peers r' c' r c"
  by (auto simp add: peers_def same_box_def)

lemma list_all_cells:
  "list_all P cells = (\<forall>r\<in>{0..<9}. \<forall>c\<in>{0..<9}. P (r, c))"
  by (auto simp add: list_all_iff set_cells)

lemma valid_partial_spec:
  "sudoku_is_valid_partial (Some b) = (cells_in_0_9 b \<and> no_repeats b)"
proof -
  have step: "(let v = cell b r c in
          if v = 0 then True
          else if \<not> is_in_range_1_9 v then False
          else (let tmp = set_cell b r c 0
                in sudoku_can_place (Some tmp) (int r) (int c) v)) =
      (0 \<le> cell b r c \<and> cell b r c \<le> 9 \<and>
       (cell b r c \<noteq> 0 \<longrightarrow>
         (\<forall>r'\<in>{0..<9}. \<forall>c'\<in>{0..<9}. peers r c r' c' \<longrightarrow> cell b r' c' \<noteq> cell b r c)))"
    if "r \<in> {0..<9}" "c \<in> {0..<9}" for r c
  proof -
    have "(\<forall>r'\<in>{0..<9}. \<forall>c'\<in>{0..<9}. peers r c r' c' \<longrightarrow>
              cell (set_cell b r c 0) r' c' \<noteq> cell b r c) =
          (\<forall>r'\<in>{0..<9}. \<forall>c'\<in>{0..<9}. peers r c r' c' \<longrightarrow> cell b r' c' \<noteq> cell b r c)"
      by (auto simp add: peers_def)
    then show ?thesis
      using that by (auto simp add: Let_def is_in_range_1_9_def can_place_peers)
  qed
  have "sudoku_is_valid_partial (Some b) =
      (\<forall>r\<in>{0..<9}. \<forall>c\<in>{0..<9}. 0 \<le> cell b r c \<and> cell b r c \<le> 9 \<and>
       (cell b r c \<noteq> 0 \<longrightarrow>
         (\<forall>r'\<in>{0..<9}. \<forall>c'\<in>{0..<9}. peers r c r' c' \<longrightarrow> cell b r' c' \<noteq> cell b r c)))"
    unfolding sudoku_is_valid_partial_def option.case list_all_cells prod.case
    using step by (intro ball_cong refl) 
  also have "\<dots> = (cells_in_0_9 b \<and> no_repeats b)"
    unfolding cells_in_0_9_def no_repeats_def by blast
  finally show ?thesis .
qed

lemma valid_place:
  assumes v: "sudoku_is_valid_partial (Some b)"
    and rc: "r < 9" "c < 9" "cell b r c = 0"
    and cp: "sudoku_can_place (Some b) (int r) (int c) v"
  shows "sudoku_is_valid_partial (Some (set_cell b r c v))"
proof -
  from cp rc have rng: "1 \<le> v" "v \<le> 9"
    and free: "\<forall>r'\<in>{0..<9}. \<forall>c'\<in>{0..<9}. peers r c r' c' \<longrightarrow> cell b r' c' \<noteq> v"
    by (simp_all add: can_place_peers)
  from v have in09: "cells_in_0_9 b" and nr: "no_repeats b"
    by (simp_all add: valid_partial_spec)
  have "cells_in_0_9 (set_cell b r c v)"
    using in09 rng by (auto simp add: cells_in_0_9_def)
  moreover have "no_repeats (set_cell b r c v)"
    unfolding no_repeats_def
  proof (intro ballI impI, elim conjE)
    fix r1 c1 r2 c2
    assume in_range: "r1 \<in> {0..<9}" "c1 \<in> {0..<9}" "r2 \<in> {0..<9}" "c2 \<in> {0..<9}"
      and nz: "cell (set_cell b r c v) r1 c1 \<noteq> 0" and p: "peers r1 c1 r2 c2"
    show "cell (set_cell b r c v) r2 c2 \<noteq> cell (set_cell b r c v) r1 c1"
    proof (cases "(r1, c1) = (r, c)")
      case True
      with p have "(r2, c2) \<noteq> (r, c)" "peers r c r2 c2" by (auto simp add: peers_def)
      moreover from this free in_range have "cell b r2 c2 \<noteq> v" by blast
      ultimately show ?thesis using True by auto
    next
      case False
      note first = this
      show ?thesis
      proof (cases "(r2, c2) = (r, c)")
        case True
        from p True have "peers r c r1 c1" by (simp add: peers_sym)
        with free in_range have "cell b r1 c1 \<noteq> v" by blast
        with True first show ?thesis by auto
      next
        case False
        with first nz nr in_range p show ?thesis
          unfolding no_repeats_def by auto
      qed
    qed
  qed
  ultimately show ?thesis by (simp add: valid_partial_spec)
qed

text \<open>A filled board without repeats that keeps the givens of b offers, at every empty
  cell of b, a digit that can be placed.\<close>
lemma completion_can_place:
  assumes s: "filled_1_9 s" "no_repeats s" and k: "keeps_givens b s"
    and rc: "r < 9" "c < 9" "cell b r c = 0"
  shows "sudoku_can_place (Some b) (int r) (int c) (cell s r c)"
    and "keeps_givens (set_cell b r c (cell s r c)) s"
proof -
  from s(1) rc have rng: "1 \<le> cell s r c" "cell s r c \<le> 9"
    by (auto simp add: filled_1_9_def)
  have "cell b r' c' \<noteq> cell s r c"
    if "r' \<in> {0..<9}" "c' \<in> {0..<9}" "peers r c r' c'" for r' c'
  proof
    assume eq: "cell b r' c' = cell s r c"
    with rng have "cell b r' c' \<noteq> 0" by simp
    with k that have "cell s r' c' = cell b r' c'" by (auto simp add: keeps_givens_def)
    with eq have "cell s r' c' = cell s r c" by simp
    moreover from rng have "cell s r c \<noteq> 0" by simp
    ultimately show False
      using s(2) that rc unfolding no_repeats_def by auto
  qed
  with rng rc show "sudoku_can_place (Some b) (int r) (int c) (cell s r c)"
    by (simp add: can_place_peers)
  from k show "keeps_givens (set_cell b r c (cell s r c)) s"
    by (auto simp add: keeps_givens_def)
qed

lemma keeps_givens_place:
  assumes "cell b r c = 0" "keeps_givens (set_cell b r c v) b'"
  shows "keeps_givens b b'"
  using assms unfolding keeps_givens_def by (metis cell_set_cell)

lemma rand_int_less: "0 < m \<Longrightarrow> fst (rand_int m st) < m"
  by (simp add: rand_int_def rand_def Let_def)

lemma mset_shuffle_loop:
  "k < length a \<Longrightarrow> mset (fst (shuffle_loop k a st)) = mset a"
proof (induction k arbitrary: a st)
  case 0
  then show ?case by simp
next
  case (Suc k)
  obtain j st' where j: "rand_int (Suc k + 1) st = (j, st')"
    by (cases "rand_int (Suc k + 1) st")
  have "j < Suc k + 1" using rand_int_less[of "Suc k + 1" st] j by simp
  with Suc.prems have jl: "j < length a" by simp
  let ?a2 = "a[Suc k := a ! j, j := a ! Suc k]"
  have "mset ?a2 = mset a"
    using Suc.prems jl by (simp add: mset_swap)
  moreover have "mset (fst (shuffle_loop k ?a2 st')) = mset ?a2"
    using Suc.prems by (intro Suc.IH) simp
  ultimately show ?case
    using j by (simp add: Let_def)
qed

lemma set_shuffle_ints:
  "shuffle_ints [1, 2, 3, 4, 5, 6, 7, 8, 9] 9 st = (nums, st') \<Longrightarrow> set nums = {1..9}"
proof -
  assume a: "shuffle_ints [1, 2, 3, 4, 5, 6, 7, 8, 9] 9 st = (nums, st')"
  have "mset (fst (shuffle_loop 8 [1, 2, 3, 4, 5, 6, 7, 8, 9] st)) = mset [1, 2, 3, 4, 5, 6, 7, 8, 9::int]"
    by (rule mset_shuffle_loop) simp
  with a have "mset nums = mset [1, 2, 3, 4, 5, 6, 7, 8, 9::int]"
    by (simp add: shuffle_ints_def)
  then have "set nums = set [1, 2, 3, 4, 5, 6, 7, 8, 9::int]"
    by (rule mset_eq_setD)
  also have "\<dots> = {1..9}" by auto
  finally show ?thesis .
qed

text \<open>The loop over \<^verbatim>\<open>nums[0..8]\<close> is a loop over the whole shuffled list.\<close>

lemma length_shuffle_ints:
  "length (fst (shuffle_ints [1, 2, 3, 4, 5, 6, 7, 8, 9] 9 st)) = 9"
proof -
  have "mset (fst (shuffle_loop 8 [1, 2, 3, 4, 5, 6, 7, 8, 9] st)) =
      mset [1, 2, 3, 4, 5, 6, 7, 8, 9::int]"
    by (rule mset_shuffle_loop) simp
  then have "length (fst (shuffle_loop 8 [1, 2, 3, 4, 5, 6, 7, 8, 9] st)) =
      length [1, 2, 3, 4, 5, 6, 7, 8, 9::int]"
    by (rule mset_eq_length)
  then show ?thesis by (simp add: shuffle_ints_def)
qed

lemma cell_clear_fold:
  "cell (fold (\<lambda>(r, c) b'. set_cell b' r c 0) xs b) r c =
     (if (r, c) \<in> set xs then 0 else cell b r c)"
  by (induction xs arbitrary: b) (auto split: prod.splits)

lemma sudoku_clear_cells:
  "sudoku_clear (Some b) = Some b0 \<Longrightarrow> r < 9 \<Longrightarrow> c < 9 \<Longrightarrow> cell b0 r c = 0"
  by (auto simp add: sudoku_clear_def cell_clear_fold set_cells)

text \<open>A failed search returns the board it was given.\<close>

lemma restore:
  "solve_backtrack b st = (False, b', st') \<Longrightarrow> b' = b"
  "try_candidates vs row col b st = (False, b', st') \<Longrightarrow> b' = b \<or> b' = set_cell b row col 0"
proof (induction b st and vs row col b st arbitrary: b' st' and b' st'
    rule: solve_backtrack_try_candidates.induct)
  case (1 b st)
  show ?case
  proof (cases "find_empty_cell b")
    case None
    with 1 show ?thesis by (simp add: solve_backtrack.simps)
  next
    case (Some p)
    obtain row col where p: "p = (row, col)" by (cases p)
    obtain nums st1 where sh: "shuffle_ints [1, 2, 3, 4, 5, 6, 7, 8, 9] 9 st = (nums, st1)"
      by (cases "shuffle_ints [1, 2, 3, 4, 5, 6, 7, 8, 9] 9 st")
    from 1(2) Some p sh have "try_candidates nums row col b st1 = (False, b', st')"
      by (simp add: solve_backtrack.simps)
    with 1(1)[OF Some p[symmetric] refl sh[symmetric]]
    have "b' = b \<or> b' = set_cell b row col 0" by blast
    moreover have "cell b row col = 0"
      using find_empty_cell_Some Some p by simp
    ultimately show ?thesis by (auto simp add: set_cell_same)
  qed
next
  case (2 row col b st)
  then show ?case by simp
next
  case (3 v vs row col b st)
  show ?case
  proof (cases "sudoku_can_place (Some b) (int row) (int col) v")
    case False
    with 3(4) have "try_candidates vs row col b st = (False, b', st')"
      by simp
    with 3(3)[OF False] show ?thesis by blast
  next
    case placed: True
    obtain ok b1 st1 where r: "solve_backtrack (set_cell b row col v) st = (ok, b1, st1)"
      by (cases "solve_backtrack (set_cell b row col v) st")
    show ?thesis
    proof (cases ok)
      case True
      with 3(4) placed r show ?thesis by simp
    next
      case False
      with r 3(1)[OF placed] have b1: "b1 = set_cell b row col v" by auto
      from 3(4) placed r False
      have "try_candidates vs row col (set_cell b1 row col 0) st1 = (False, b', st')"
        by simp
      moreover have "ok = False" using False by simp
      ultimately
      have "b' = set_cell b1 row col 0 \<or> b' = set_cell (set_cell b1 row col 0) row col 0"
        using 3(2)[OF placed r[symmetric] _ refl] by blast
      with b1 show ?thesis by simp
    qed
  qed
qed

lemma find_empty_cell_None:
  "find_empty_cell b = None \<Longrightarrow> r < 9 \<Longrightarrow> c < 9 \<Longrightarrow> cell b r c \<noteq> 0"
  by (auto simp add: find_empty_cell_def find_None_iff set_cells)

lemma find_empty_cell_None_iff:
  "(find_empty_cell b = None) = (\<forall>r\<in>{0..<9}. \<forall>c\<in>{0..<9}. cell b r c \<noteq> 0)"
  by (auto simp add: find_empty_cell_def find_None_iff set_cells)

lemma solved_from_place:
  assumes "solved_from (set_cell b r c v) b'" "r < 9" "c < 9" "cell b r c = 0"
    "sudoku_can_place (Some b) (int r) (int c) v"
  shows "solved_from b b'"
  using assms valid_place[of b r c v] keeps_givens_place[of b r c v b']
  unfolding solved_from_def by blast

text \<open>The search is sound.\<close>

lemma sound:
  "solve_backtrack b st = (True, b', st') \<Longrightarrow> solved_from b b'"
  "try_candidates vs row col b st = (True, b', st') \<Longrightarrow> row < 9 \<Longrightarrow> col < 9 \<Longrightarrow>
     cell b row col = 0 \<Longrightarrow> solved_from b b'"
proof (induction b st and vs row col b st arbitrary: b' st' and b' st'
    rule: solve_backtrack_try_candidates.induct)
  case (1 b st)
  show ?case
  proof (cases "find_empty_cell b")
    case None
    with 1(2) have "b' = b" by (simp add: solve_backtrack.simps)
    with None show ?thesis
      by (simp add: solved_from_def find_empty_cell_None_iff keeps_givens_def no_empty_cell_def)
  next
    case (Some p)
    obtain row col where p: "p = (row, col)" by (cases p)
    obtain nums st1 where sh: "shuffle_ints [1, 2, 3, 4, 5, 6, 7, 8, 9] 9 st = (nums, st1)"
      by (cases "shuffle_ints [1, 2, 3, 4, 5, 6, 7, 8, 9] 9 st")
    from 1(2) Some p sh have "try_candidates nums row col b st1 = (True, b', st')"
      by (simp add: solve_backtrack.simps)
    moreover have "row < 9" "col < 9" "cell b row col = 0"
      using find_empty_cell_Some Some p by simp_all
    ultimately show ?thesis
      using 1(1)[OF Some p[symmetric] refl sh[symmetric]] by blast
  qed
next
  case (2 row col b st)
  then show ?case by simp
next
  case (3 v vs row col b st)
  show ?case
  proof (cases "sudoku_can_place (Some b) (int row) (int col) v")
    case False
    with 3(4) have "try_candidates vs row col b st = (True, b', st')"
      by simp
    with 3(3)[OF False] 3(5-7) show ?thesis by blast
  next
    case placed: True
    obtain ok b1 st1 where r: "solve_backtrack (set_cell b row col v) st = (ok, b1, st1)"
      by (cases "solve_backtrack (set_cell b row col v) st")
    show ?thesis
    proof (cases ok)
      case True
      with 3(4) placed r have "b1 = b'" by simp
      with True r 3(1)[OF placed] have "solved_from (set_cell b row col v) b'" by auto
      with placed 3(5-7) show ?thesis by (auto intro: solved_from_place)
    next
      case False
      with r have b1: "b1 = set_cell b row col v" using restore(1) by auto
      with 3(7) have reset_eq: "set_cell b1 row col 0 = b" by (simp add: set_cell_same)
      from 3(4) placed r False
      have "try_candidates vs row col (set_cell b1 row col 0) st1 = (True, b', st')"
        by simp
      moreover have "ok = False" using False by simp
      ultimately show ?thesis
        using 3(2)[OF placed r[symmetric] _ refl] 3(5-7) reset_eq by auto
    qed
  qed
qed

text \<open>The search is complete: it succeeds whenever the board has a completion.\<close>

lemma complete:
  "completes s b \<Longrightarrow> fst (solve_backtrack b st)"
  "completes s b \<Longrightarrow> row < 9 \<Longrightarrow> col < 9 \<Longrightarrow> cell b row col = 0 \<Longrightarrow> cell s row col \<in> set vs \<Longrightarrow>
     fst (try_candidates vs row col b st)"
proof (induction b st and vs row col b st
    rule: solve_backtrack_try_candidates.induct)
  case (1 b st)
  show ?case
  proof (cases "find_empty_cell b")
    case None
    then show ?thesis by (simp add: solve_backtrack.simps)
  next
    case (Some p)
    obtain row col where p: "p = (row, col)" by (cases p)
    obtain nums st1 where sh: "shuffle_ints [1, 2, 3, 4, 5, 6, 7, 8, 9] 9 st = (nums, st1)"
      by (cases "shuffle_ints [1, 2, 3, 4, 5, 6, 7, 8, 9] 9 st")
    have rc: "row < 9" "col < 9" "cell b row col = 0"
      using find_empty_cell_Some Some p by simp_all
    from 1(2) rc have "cell s row col \<in> {1..9}"
      by (auto simp add: completes_def filled_1_9_def)
    then have "cell s row col \<in> set nums" using set_shuffle_ints[OF sh] by simp
    with 1(1)[OF Some p[symmetric] refl sh[symmetric] 1(2)] rc
    have "fst (try_candidates nums row col b st1)" by blast
    with Some p sh show ?thesis by (simp add: solve_backtrack.simps)
  qed
next
  case (2 row col b st)
  then show ?case by simp
next
  case (3 v vs row col b st)
  note comp = \<open>completes s b\<close> and rc = \<open>row < 9\<close> \<open>col < 9\<close> \<open>cell b row col = 0\<close>
  from comp have s: "filled_1_9 s" "no_repeats s" "keeps_givens b s"
    by (simp_all add: completes_def)
  show ?case
  proof (cases "sudoku_can_place (Some b) (int row) (int col) v")
    case False
    with completion_can_place(1)[OF s rc] have "v \<noteq> cell s row col" by auto
    with 3(8) have "cell s row col \<in> set vs" by auto
    with 3(3)[OF False comp rc] False show ?thesis by simp
  next
    case placed: True
    obtain ok b1 st1 where r: "solve_backtrack (set_cell b row col v) st = (ok, b1, st1)"
      by (cases "solve_backtrack (set_cell b row col v) st")
    show ?thesis
    proof (cases ok)
      case True
      with placed r show ?thesis by simp
    next
      case False
      with r have b1: "b1 = set_cell b row col v" using restore(1) by auto
      with rc have reset_eq: "set_cell b1 row col 0 = b" by (simp add: set_cell_same)
      have "v \<noteq> cell s row col"
      proof
        assume "v = cell s row col"
        with completion_can_place(2)[OF s rc] s have "completes s (set_cell b row col v)"
          by (simp add: completes_def)
        from 3(1)[OF placed this] r False show False by simp
      qed
      with 3(8) have "cell s row col \<in> set vs" by auto
      moreover have "ok = False" using False by simp
      ultimately have "fst (try_candidates vs row col (set_cell b1 row col 0) st1)"
        using 3(2)[OF placed r[symmetric] _ refl] comp rc reset_eq by auto
      with placed r False show ?thesis by simp
    qed
  qed
qed

section \<open>Consequences for \<open>sudoku_solve\<close>\<close>

lemma valid_no_empty_filled:
  "sudoku_is_valid_partial (Some b) \<Longrightarrow> no_empty_cell b \<Longrightarrow> filled_1_9 b"
  unfolding valid_partial_spec cells_in_0_9_def no_empty_cell_def filled_1_9_def
  by force

lemma filled_no_empty: "filled_1_9 b \<Longrightarrow> no_empty_cell b"
  unfolding no_empty_cell_def filled_1_9_def by force

lemma filled_cells_in_0_9: "filled_1_9 b \<Longrightarrow> cells_in_0_9 b"
  unfolding cells_in_0_9_def filled_1_9_def by force

lemma solve_backtrack_full:
  "no_empty_cell b \<Longrightarrow> solve_backtrack b st = (True, b, st)"
  by (simp add: find_empty_cell_None_iff[symmetric] no_empty_cell_def solve_backtrack.simps)

lemma sudoku_solve_null: "sudoku_solve srand None st = (SUDOKU_ERR_INVALID_ARG, None, st)"
  by (simp add: sudoku_solve_def)

lemma sudoku_solve_invalid:
  "\<not> sudoku_is_valid_partial (Some b) \<Longrightarrow>
     sudoku_solve srand (Some b) st = (SUDOKU_ERR_UNSOLVABLE, Some b, seed_if_needed srand st)"
  by (simp add: sudoku_solve_def)

lemma sudoku_solve_search:
  "sudoku_is_valid_partial (Some b) \<Longrightarrow>
     solve_backtrack b (seed_if_needed srand st) = (ok, b', st') \<Longrightarrow>
     sudoku_solve srand (Some b) st =
       (if ok then SUDOKU_OK else SUDOKU_ERR_UNSOLVABLE, Some b', st')"
  by (simp add: sudoku_solve_def)

lemma sudoku_solve_OK_D:
  assumes "fst (sudoku_solve srand (Some b) st) = SUDOKU_OK"
  obtains s st' where "sudoku_solve srand (Some b) st = (SUDOKU_OK, Some s, st')"
    "sudoku_is_valid_partial (Some b)"
    "solve_backtrack b (seed_if_needed srand st) = (True, s, st')"
proof -
  from assms have v: "sudoku_is_valid_partial (Some b)"
    by (auto simp add: sudoku_solve_def Let_def split: if_splits)
  obtain ok s st' where r: "solve_backtrack b (seed_if_needed srand st) = (ok, s, st')"
    by (cases "solve_backtrack b (seed_if_needed srand st)")
  with assms v have "ok" by (auto simp add: sudoku_solve_search split: if_splits)
  with v r that show ?thesis by (simp add: sudoku_solve_search)
qed

lemma sudoku_solve_OK_solution:
  assumes "sudoku_solve srand (Some b) st = (SUDOKU_OK, b', st')"
  shows "\<exists>s. b' = Some s \<and> filled_1_9 s \<and> sudoku_is_valid_partial (Some s) \<and>
           no_repeats s \<and> keeps_givens b s"
proof -
  from assms have "fst (sudoku_solve srand (Some b) st) = SUDOKU_OK" by simp
  then obtain s st1 where r: "sudoku_solve srand (Some b) st = (SUDOKU_OK, Some s, st1)"
    and v: "sudoku_is_valid_partial (Some b)"
    and sb: "solve_backtrack b (seed_if_needed srand st) = (True, s, st1)"
    by (rule sudoku_solve_OK_D)
  from sb have "solved_from b s" by (rule sound(1))
  with v have "no_empty_cell s" "keeps_givens b s" "sudoku_is_valid_partial (Some s)"
    by (simp_all add: solved_from_def)
  moreover from this have "filled_1_9 s" "no_repeats s"
    by (simp_all add: valid_no_empty_filled valid_partial_spec)
  moreover from r assms have "b' = Some s" by simp
  ultimately show ?thesis by simp
qed

lemma sudoku_solve_not_OK_board:
  assumes "sudoku_solve srand (Some b) st = (r, b', st')" "r \<noteq> SUDOKU_OK"
  shows "b' = Some b"
proof (cases "sudoku_is_valid_partial (Some b)")
  case False
  with assms show ?thesis by (simp add: sudoku_solve_invalid)
next
  case True
  obtain ok s st1 where sb: "solve_backtrack b (seed_if_needed srand st) = (ok, s, st1)"
    by (cases "solve_backtrack b (seed_if_needed srand st)")
  with True assms have "\<not> ok" "b' = Some s"
    by (auto simp add: sudoku_solve_search split: if_splits)
  with sb restore(1) show ?thesis by auto
qed

lemma completes_valid:
  assumes "completes s b"
  shows "sudoku_is_valid_partial (Some b)"
proof -
  from assms have f: "filled_1_9 s" and nr: "no_repeats s" and k: "keeps_givens b s"
    by (simp_all add: completes_def)
  have "cells_in_0_9 b"
    unfolding cells_in_0_9_def
  proof (intro ballI)
    fix r c :: nat assume rc: "r \<in> {0..<9}" "c \<in> {0..<9}"
    show "0 \<le> cell b r c \<and> cell b r c \<le> 9"
    proof (cases "cell b r c = 0")
      case True
      then show ?thesis by simp
    next
      case False
      with k rc have "cell b r c = cell s r c" by (simp add: keeps_givens_def)
      with f rc show ?thesis by (force simp add: filled_1_9_def)
    qed
  qed
  moreover have "no_repeats b"
    unfolding no_repeats_def
  proof (intro ballI impI, elim conjE)
    fix r c r' c' :: nat
    assume rc: "r \<in> {0..<9}" "c \<in> {0..<9}" "r' \<in> {0..<9}" "c' \<in> {0..<9}"
      and nz: "cell b r c \<noteq> 0" and p: "peers r c r' c'"
    show "cell b r' c' \<noteq> cell b r c"
    proof
      assume eq: "cell b r' c' = cell b r c"
      with nz k rc have "cell s r c = cell b r c" "cell s r' c' = cell b r' c'"
        by (simp_all add: keeps_givens_def)
      with eq nz have "cell s r c \<noteq> 0" "cell s r' c' = cell s r c" by simp_all
      with nr rc p show False unfolding no_repeats_def by blast
    qed
  qed
  ultimately show ?thesis by (simp add: valid_partial_spec)
qed

lemma completes_solvable: "completes s b \<Longrightarrow> solvable srand b"
  unfolding solvable_def
proof
  fix st
  assume c: "completes s b"
  obtain ok b' st' where r: "solve_backtrack b (seed_if_needed srand st) = (ok, b', st')"
    by (cases "solve_backtrack b (seed_if_needed srand st)")
  with complete(1)[OF c, of "seed_if_needed srand st"] have ok by simp
  with r completes_valid[OF c] show "fst (sudoku_solve srand (Some b) st) = SUDOKU_OK"
    by (simp add: sudoku_solve_search)
qed

lemma solve_OK_completes:
  assumes "fst (sudoku_solve srand (Some b) st) = SUDOKU_OK"
  shows "\<exists>s. completes s b"
proof -
  obtain b' st' where "sudoku_solve srand (Some b) st = (SUDOKU_OK, b', st')"
    using assms by (cases "sudoku_solve srand (Some b) st") simp
  from sudoku_solve_OK_solution[OF this] show ?thesis
    by (auto simp add: completes_def)
qed

lemma solve_OK_solvable:
  "fst (sudoku_solve srand (Some b) st) = SUDOKU_OK \<Longrightarrow> solvable srand' b"
  using solve_OK_completes completes_solvable by blast

section \<open>Generating\<close>

lemma example_grid_valid: "sudoku_is_valid_partial (Some example_grid)"
  by code_simp

lemma example_grid_filled: "filled_1_9 example_grid"
  by code_simp

lemma keeps_givens_refl: "keeps_givens b b"
  by (simp add: keeps_givens_def)

lemma filled_valid_completes:
  "filled_1_9 s \<Longrightarrow> sudoku_is_valid_partial (Some s) \<Longrightarrow> completes s s"
  by (simp add: completes_def valid_partial_spec keeps_givens_refl)

lemma generate_solution_OK:
  "\<exists>s st'. sudoku_generate_solution srand (Some b0) st = (SUDOKU_OK, Some s, st') \<and>
     filled_1_9 s \<and> sudoku_is_valid_partial (Some s)"
proof -
  obtain b where b: "sudoku_clear (Some b0) = Some b"
    by (simp add: sudoku_clear_def)
  then have zero: "\<And>r c. r < 9 \<Longrightarrow> c < 9 \<Longrightarrow> cell b r c = 0"
    by (rule sudoku_clear_cells)
  then have "keeps_givens b example_grid"
    by (simp add: keeps_givens_def)
  with example_grid_valid example_grid_filled have c: "completes example_grid b"
    by (simp add: completes_def valid_partial_spec)
  obtain ok s st' where r: "solve_backtrack b (seed_if_needed srand st) = (ok, s, st')"
    by (cases "solve_backtrack b (seed_if_needed srand st)")
  with complete(1)[OF c, of "seed_if_needed srand st"] have ok: ok by simp
  with r have "solved_from b s" using sound(1) by simp
  moreover have "sudoku_is_valid_partial (Some b)" using c by (rule completes_valid)
  ultimately have "no_empty_cell s" "sudoku_is_valid_partial (Some s)"
    by (simp_all add: solved_from_def)
  then have "filled_1_9 s" "sudoku_is_valid_partial (Some s)"
    by (simp_all add: valid_no_empty_filled)
  moreover from b r ok
  have "sudoku_generate_solution srand (Some b0) st = (SUDOKU_OK, Some s, st')"
    by (simp add: sudoku_generate_solution_def)
  ultimately show ?thesis by blast
qed

lemma generate_solution_null:
  "sudoku_generate_solution srand None st = (SUDOKU_ERR_INVALID_ARG, None, st)"
  by (simp add: sudoku_generate_solution_def)

subsection \<open>Counting holes\<close>

lemma fold_count:
  "fold (\<lambda>(r, c) holes. if cell b r c = 0 then holes + 1 else holes) xs (a::int) =
     a + int (length (filter (\<lambda>(r, c). cell b r c = 0) xs))"
  by (induction xs arbitrary: a) (auto split: prod.splits)

lemma count_holes_card: "count_holes b = int (card (empties b))"
proof -
  have "empties b = {p \<in> set cells. (\<lambda>(r, c). cell b r c = 0) p}"
    by (auto simp add: empties_def)
  then have "card (empties b) = length (filter (\<lambda>(r, c). cell b r c = 0) cells)"
    using distinct_cells by (simp add: distinct_length_filter Int_def conj_commute)
  then show ?thesis by (simp add: count_holes_def fold_count)
qed

lemma count_holes_nonneg: "0 \<le> count_holes b"
  by (simp add: count_holes_card)

lemma count_holes_remove:
  assumes "r < 9" "c < 9" "cell b r c \<noteq> 0"
  shows "count_holes (set_cell b r c 0) = count_holes b + 1"
proof -
  have "(r, c) \<notin> empties b" using assms by (simp add: empties_def)
  then show ?thesis
    using assms by (simp add: count_holes_card empties_zero finite_empties)
qed

lemma filled_count_holes: "filled_1_9 s \<Longrightarrow> count_holes s = 0"
proof -
  assume "filled_1_9 s"
  then have "empties s = {}"
    by (force simp add: empties_def filled_1_9_def set_cells)
  then show ?thesis by (simp add: count_holes_card)
qed

subsection \<open>One pass of the removal loop\<close>

lemma copy_into_local: "sudoku_copy (Some d) (Some s) = Some s"
  by (simp add: sudoku_copy_def)

text \<open>
  A pass counts one try and leaves the puzzle as it was (the cell was empty already, or
  the removal was reverted), or with one more cell emptied, on which the solver succeeded.
\<close>

lemma carve_body_cases:
  assumes "carve_body srand (tries, p, st) = (tries', p', st')"
  shows "tries' = tries + 1 \<and>
    (p' = p \<or>
     (\<exists>rr cc st2. rr < 9 \<and> cc < 9 \<and> cell p rr cc \<noteq> 0 \<and> p' = set_cell p rr cc 0 \<and>
        fst (sudoku_solve srand (Some p') st2) = SUDOKU_OK))"
proof -
  obtain rr st1 where rr: "rand_int 9 st = (rr, st1)" by (cases "rand_int 9 st")
  obtain cc st2 where cc: "rand_int 9 st1 = (cc, st2)" by (cases "rand_int 9 st1")
  have lt: "rr < 9" "cc < 9"
    using rand_int_less[of 9 st] rand_int_less[of 9 st1] rr cc by simp_all
  obtain res tmp' st3 where sv: "sudoku_solve srand (Some (set_cell p rr cc 0)) st2 = (res, tmp', st3)"
    by (cases "sudoku_solve srand (Some (set_cell p rr cc 0)) st2")
  show ?thesis
  proof (cases "cell p rr cc = 0")
    case True
    with assms rr cc show ?thesis by (simp add: carve_body_def)
  next
    case False
    show ?thesis
    proof (cases "res = SUDOKU_OK")
      case True
      with assms rr cc sv False have "tries' = tries + 1" "p' = set_cell p rr cc 0"
        by (simp_all add: carve_body_def copy_into_local)
      moreover from this sv True have "fst (sudoku_solve srand (Some p') st2) = SUDOKU_OK"
        by simp
      ultimately show ?thesis using lt False by blast
    next
      case no: False
      with assms rr cc sv False
      have "tries' = tries + 1" "p' = set_cell (set_cell p rr cc 0) rr cc (cell p rr cc)"
        by (simp_all add: carve_body_def copy_into_local)
      then show ?thesis by (simp add: set_cell_same)
    qed
  qed
qed

lemma carve_body_skip:
  assumes "rand_int 9 st = (rr, st1)" "rand_int 9 st1 = (cc, st2)" "cell p rr cc = 0"
  shows "carve_body srand (tries, p, st) = (tries + 1, p, st2)"
  using assms by (simp add: carve_body_def)

lemma keeps_givens_remove: "keeps_givens p s \<Longrightarrow> keeps_givens (set_cell p r c 0) s"
  by (simp add: keeps_givens_def)

subsection \<open>The whole loop\<close>

lemma carve_loop_rule:
  assumes "P s" and "\<And>s. P s \<Longrightarrow> carve_guard target s \<Longrightarrow> P (carve_body srand s)"
  shows "P (carve_loop srand target s) \<and> \<not> carve_guard target (carve_loop srand target s)"
  using assms
proof (induction srand target s rule: carve_loop.induct)
  case (1 srand target s)
  show ?case
  proof (cases "carve_guard target s")
    case True
    with 1(2,3) have "P (carve_body srand s)" by blast
    with 1(1)[OF True _ 1(3)] True show ?thesis
      by (subst (1 2) carve_loop.simps) simp
  next
    case False
    with 1(2) show ?thesis by (subst (1 2) carve_loop.simps) simp
  qed
qed

lemma generate_puzzle_run_null:
  "out_puzzle = None \<or> out_solution = None \<Longrightarrow>
     sudoku_generate_puzzle_run srand out_puzzle out_solution d st =
       ((SUDOKU_ERR_INVALID_ARG, out_puzzle, out_solution, st), 0)"
  by (simp add: sudoku_generate_puzzle_run_def)

text \<open>With two boards to write to, generation succeeds: the solution is what the search
  from the cleared board returns, the puzzle what the removal loop leaves of a copy of it.\<close>

lemma generate_puzzle_run_Some:
  "\<exists>s st1 tries p st2.
     sudoku_generate_solution srand (Some s0) (seed_if_needed srand st) =
       (SUDOKU_OK, Some s, st1) \<and>
     filled_1_9 s \<and> sudoku_is_valid_partial (Some s) \<and>
     carve_loop srand (sudoku_holes_for_difficulty d) (0, s, st1) = (tries, p, st2) \<and>
     sudoku_generate_puzzle_run srand (Some p0) (Some s0) d st =
       ((SUDOKU_OK, Some p, Some s, st2), tries)"
proof -
  obtain s st1 where g: "sudoku_generate_solution srand (Some s0) (seed_if_needed srand st) =
      (SUDOKU_OK, Some s, st1)" and s: "filled_1_9 s" "sudoku_is_valid_partial (Some s)"
    using generate_solution_OK by blast
  obtain tries p st2 where
    l: "carve_loop srand (sudoku_holes_for_difficulty d) (0, s, st1) = (tries, p, st2)"
    by (cases "carve_loop srand (sudoku_holes_for_difficulty d) (0, s, st1)")
  have "sudoku_copy (Some p0) (Some s) = Some s" by (rule copy_into_local)
  with g l have "sudoku_generate_puzzle_run srand (Some p0) (Some s0) d st =
      ((SUDOKU_OK, Some p, Some s, st2), tries)"
    by (simp add: sudoku_generate_puzzle_run_def)
  with g s l show ?thesis by blast
qed

lemma generate_puzzle_OK_iff:
  "(fst (sudoku_generate_puzzle srand out_puzzle out_solution d st) = SUDOKU_OK) =
     (out_puzzle \<noteq> None \<and> out_solution \<noteq> None)"
proof (cases "out_puzzle = None \<or> out_solution = None")
  case True
  then show ?thesis
    by (auto simp add: sudoku_generate_puzzle_def generate_puzzle_run_null)
next
  case False
  then obtain p0 s0 where "out_puzzle = Some p0" "out_solution = Some s0" by auto
  with generate_puzzle_run_Some[of srand s0 st d p0] show ?thesis
    by (auto simp add: sudoku_generate_puzzle_def)
qed

lemma holes_for_difficulty_nonneg: "0 \<le> sudoku_holes_for_difficulty d"
  by (simp add: sudoku_holes_for_difficulty_def)

text \<open>What the removal loop keeps true of the puzzle, for a solution \<open>s\<close> it started from.\<close>

lemma carve_loop_holes:
  assumes "carve_loop srand target (0, s, st) = (tries, p, st')" "count_holes s \<le> target"
  shows "keeps_givens p s \<and> count_holes p \<le> target \<and>
     (tries < max_tries \<longrightarrow> count_holes p = target)"
proof -
  let ?P = "\<lambda>x. case x of (t, q, u) \<Rightarrow> keeps_givens q s \<and> count_holes q \<le> target"
  have step: "?P (carve_body srand x)" if "?P x" "carve_guard target x" for x
  proof -
    obtain t q u where x: "x = (t, q, u)" by (cases x)
    obtain t' q' u' where b: "carve_body srand (t, q, u) = (t', q', u')"
      by (cases "carve_body srand (t, q, u)")
    from that x have k: "keeps_givens q s" and lt: "count_holes q < target"
      by (simp_all add: carve_guard_def)
    from carve_body_cases[OF b]
    have "q' = q \<or> (\<exists>rr cc. rr < 9 \<and> cc < 9 \<and> cell q rr cc \<noteq> 0 \<and> q' = set_cell q rr cc 0)"
      by blast
    then have "keeps_givens q' s \<and> count_holes q' \<le> target"
      using k lt by (auto simp add: keeps_givens_remove count_holes_remove)
    with x b show ?thesis by simp
  qed
  have "?P (0, s, st)" using assms(2) by (simp add: keeps_givens_refl)
  from carve_loop_rule[where P = ?P and srand = srand and target = target
      and s = "(0, s, st)", OF this step] assms(1)
  have "keeps_givens p s" "count_holes p \<le> target" "\<not> carve_guard target (tries, p, st')"
    by simp_all
  then show ?thesis by (auto simp add: carve_guard_def)
qed

lemma carve_body_solvable:
  assumes "solvable srand p"
  shows "solvable srand (fst (snd (carve_body srand (tries, p, st))))"
proof -
  obtain t' p' u' where b: "carve_body srand (tries, p, st) = (t', p', u')"
    by (cases "carve_body srand (tries, p, st)")
  from carve_body_cases[OF b] assms have "solvable srand p'"
    using solve_OK_solvable by blast
  with b show ?thesis by simp
qed

lemma carve_iterates_solvable:
  "solvable srand p \<Longrightarrow> solvable srand (fst (snd ((carve_body srand ^^ n) (tries, p, st))))"
proof (induction n)
  case 0
  then show ?case by simp
next
  case (Suc n)
  obtain t q u where x: "(carve_body srand ^^ n) (tries, p, st) = (t, q, u)"
    by (cases "(carve_body srand ^^ n) (tries, p, st)")
  with Suc have "solvable srand q" by simp
  then have "solvable srand (fst (snd (carve_body srand (t, q, u))))"
    by (rule carve_body_solvable)
  with x show ?case by simp
qed

lemma carve_loop_solvable:
  assumes "solvable srand p"
  shows "solvable srand (fst (snd (carve_loop srand target (tries, p, st))))"
proof -
  let ?P = "\<lambda>x. solvable srand (fst (snd x))"
  have "?P (carve_body srand x)" if "?P x" for x
    using that carve_body_solvable[of srand "fst (snd x)" "fst x" "snd (snd x)"] by simp
  with carve_loop_rule[where P = ?P and s = "(tries, p, st)" and srand = srand
      and target = target] assms show ?thesis by simp
qed

text \<open>The loop is the body iterated: as many passes as the guard lets through.\<close>

lemma fst_carve_iterate: "fst ((carve_body srand ^^ k) s) = fst s + k"
  by (induction k) (simp_all add: fst_carve_body)

lemma carve_loop_iterates:
  "\<exists>n. n \<le> max_tries - fst s \<and>
     carve_loop srand target s = (carve_body srand ^^ n) s \<and>
     (\<forall>k<n. carve_guard target ((carve_body srand ^^ k) s)) \<and>
     \<not> carve_guard target ((carve_body srand ^^ n) s)"
proof (induction srand target s rule: carve_loop.induct)
  case (1 srand target s)
  show ?case
  proof (cases "carve_guard target s")
    case False
    then have "carve_loop srand target s = s" by (subst carve_loop.simps) simp
    with False show ?thesis by (intro exI[of _ 0]) simp
  next
    case True
    from 1[OF True] obtain n where n: "n \<le> max_tries - fst (carve_body srand s)"
      "carve_loop srand target (carve_body srand s) = (carve_body srand ^^ n) (carve_body srand s)"
      "\<forall>k<n. carve_guard target ((carve_body srand ^^ k) (carve_body srand s))"
      "\<not> carve_guard target ((carve_body srand ^^ n) (carve_body srand s))"
      by blast
    from True have "fst s < max_tries" by (auto simp add: carve_guard_def)
    with n(1) have "Suc n \<le> max_tries - fst s" by (simp add: fst_carve_body)
    moreover from True n(2) have "carve_loop srand target s = (carve_body srand ^^ Suc n) s"
      by (subst carve_loop.simps) (simp add: funpow_swap1)
    moreover have "\<forall>k<Suc n. carve_guard target ((carve_body srand ^^ k) s)"
    proof (intro allI impI)
      fix k assume "k < Suc n"
      show "carve_guard target ((carve_body srand ^^ k) s)"
      proof (cases k)
        case 0
        with True show ?thesis by simp
      next
        case (Suc j)
        with \<open>k < Suc n\<close> n(3) show ?thesis by (simp add: funpow_swap1)
      qed
    qed
    moreover from n(4) have "\<not> carve_guard target ((carve_body srand ^^ Suc n) s)"
      by (simp add: funpow_swap1)
    ultimately show ?thesis by blast
  qed
qed

section \<open>Runs on concrete boards\<close>

lemma repeated_row_invalid: "\<not> sudoku_is_valid_partial (Some repeated_row)"
  by code_simp

lemma dead_end_valid: "sudoku_is_valid_partial (Some dead_end)"
  by code_simp

lemma dead_end_exhausts:
  "\<not> fst (solve_backtrack dead_end (seed_if_needed srand_zero unseeded_zero))"
  by code_simp

lemma two_holes_solved:
  "fst (sudoku_solve srand_zero (Some two_holes) unseeded_zero) = SUDOKU_OK"
  by code_simp

lemma two_holes_result:
  "map_option rows_of (fst (snd (sudoku_solve srand_zero (Some two_holes) unseeded_zero))) =
     Some (rows_of example_grid)"
  by code_simp

lemma two_holes_can_place:
  "sudoku_can_place (Some two_holes) 8 7 5"
  "\<not> sudoku_can_place (Some two_holes) 8 7 3"
  "\<not> sudoku_can_place (Some two_holes) 9 7 5"
  "\<not> sudoku_can_place (Some two_holes) 8 (- 1) 5"
  "\<not> sudoku_can_place (Some two_holes) 8 7 10"
  by code_simp+

lemma example_grid_no_empty: "no_empty_cell example_grid"
  by (rule filled_no_empty) (rule example_grid_filled)

lemma example_grid_solvable: "solvable srand example_grid"
  using filled_valid_completes[OF example_grid_filled example_grid_valid]
  by (rule completes_solvable)

text \<open>A removal the solver accepts: the cell picked is emptied.\<close>

lemma carve_body_removes:
  assumes "rand_int 9 st = (rr, st1)" "rand_int 9 st1 = (cc, st2)" "cell p rr cc \<noteq> 0"
    and "completes s (set_cell p rr cc 0)"
  shows "fst (carve_body srand (tries, p, st)) = tries + 1"
    and "fst (snd (carve_body srand (tries, p, st))) = set_cell p rr cc 0"
proof -
  from assms(4) have "solvable srand (set_cell p rr cc 0)" by (rule completes_solvable)
  then have ok: "fst (sudoku_solve srand (Some (set_cell p rr cc 0)) st2) = SUDOKU_OK"
    by (simp add: solvable_def)
  obtain res tmp' st3 where
    sv: "sudoku_solve srand (Some (set_cell p rr cc 0)) st2 = (res, tmp', st3)"
    by (cases "sudoku_solve srand (Some (set_cell p rr cc 0)) st2")
  with ok have "res = SUDOKU_OK" by simp
  with assms(1-3) sv
  show "fst (carve_body srand (tries, p, st)) = tries + 1"
    and "fst (snd (carve_body srand (tries, p, st))) = set_cell p rr cc 0"
    by (simp_all add: carve_body_def copy_into_local)
qed

lemma rand_int_seeded_zero: "rand_int 9 seeded_zero = (0, seeded_zero)"
  by (simp add: rand_int_def rand_def seeded_zero_def)

lemma example_grid_first_cell: "cell example_grid 0 0 = 2"
  by (simp add: example_grid_def board_of_rows_def)

lemma dead_end_first_cell: "cell dead_end 0 0 = 0"
  by (simp add: dead_end_def board_of_rows_def)

text \<open>With a target of one hole the loop on \<open>example_grid\<close> makes one pass.\<close>

lemma one_pass:
  "carve_guard 1 (0, example_grid, seeded_zero)"
  "\<not> carve_guard 1 (carve_body srand_zero (0, example_grid, seeded_zero))"
  "fst (carve_loop srand_zero 1 (0, example_grid, seeded_zero)) = 1"
proof -
  let ?b = "carve_body srand_zero (0, example_grid, seeded_zero)"
  show g0: "carve_guard 1 (0, example_grid, seeded_zero)"
    by (simp add: carve_guard_def max_tries_def filled_count_holes example_grid_filled)
  have "completes example_grid (set_cell example_grid 0 0 0)"
    using filled_valid_completes[OF example_grid_filled example_grid_valid]
    by (simp add: completes_def keeps_givens_remove)
  from carve_body_removes[OF rand_int_seeded_zero rand_int_seeded_zero _ this,
      where srand = srand_zero and tries = 0]
  have b: "fst ?b = 1" "fst (snd ?b) = set_cell example_grid 0 0 0"
    by (simp_all add: example_grid_first_cell)
  have "count_holes (set_cell example_grid 0 0 0) = 1"
    by (simp add: count_holes_remove example_grid_first_cell filled_count_holes
        example_grid_filled)
  with b show g1: "\<not> carve_guard 1 ?b"
    by (cases ?b) (simp add: carve_guard_def)
  have "carve_loop srand_zero 1 (0, example_grid, seeded_zero) = carve_loop srand_zero 1 ?b"
    using g0 by (subst carve_loop.simps) simp
  also have "\<dots> = ?b" using g1 by (subst carve_loop.simps) simp
  finally show "fst (carve_loop srand_zero 1 (0, example_grid, seeded_zero)) = 1"
    using b by simp
qed

section \<open>The seed decides the run\<close>

lemma seed_if_needed_unseeded:
  "\<not> g_seeded st \<Longrightarrow> seed_if_needed srand st = sudoku_seed srand 0 st"
  by (simp add: seed_if_needed_def)

lemma seed_if_needed_seeded:
  "seed_if_needed srand (sudoku_seed srand seed st) = sudoku_seed srand seed st"
  by (simp add: seed_if_needed_def sudoku_seed_def)

section \<open>How much of the stream a run consumes\<close>

lemma advance_0 [simp]: "advance 0 st = st"
  by (simp add: advance_def)

lemma advance_advance [simp]: "advance a (advance b st) = advance (a + b) st"
  by (simp add: advance_def add.assoc)

lemma g_seeded_advance [simp]: "g_seeded (advance k st) = g_seeded st"
  by (simp add: advance_def)

lemma upcoming_advance [simp]: "upcoming (advance k st) n = upcoming st (n + k)"
  by (simp add: advance_def)

lemma rand_int_advance: "rand_int m st = (upcoming st 0 mod m, advance 1 st)"
  by (simp add: rand_int_def rand_def advance_def)

lemma shuffle_loop_advance: "snd (shuffle_loop k a st) = advance k st"
proof (induction k arbitrary: a st)
  case 0
  show ?case by simp
next
  case (Suc k)
  show ?case by (simp add: rand_int_advance Let_def Suc.IH)
qed

lemma shuffle_ints_advance:
  "shuffle_ints [1, 2, 3, 4, 5, 6, 7, 8, 9] 9 st = (nums, st') \<Longrightarrow> st' = advance 8 st"
  using shuffle_loop_advance[of 8 "[1, 2, 3, 4, 5, 6, 7, 8, 9]" st]
  by (simp add: shuffle_ints_def)

text \<open>The search draws its random numbers eight at a time, one shuffle per cell it tries to fill.\<close>

lemma solver_advance:
  "\<exists>m. snd (snd (solve_backtrack b st)) = advance (8 * m) st"
  "\<exists>m. snd (snd (try_candidates vs row col b st)) = advance (8 * m) st"
proof (induction b st and vs row col b st rule: solve_backtrack_try_candidates.induct)
  case (1 b st)
  show ?case
  proof (cases "find_empty_cell b")
    case None
    then have "snd (snd (solve_backtrack b st)) = advance (8 * 0) st"
      by (simp add: solve_backtrack.simps)
    then show ?thesis by blast
  next
    case (Some p)
    obtain row col where p: "p = (row, col)" by (cases p)
    obtain nums st1 where sh: "shuffle_ints [1, 2, 3, 4, 5, 6, 7, 8, 9] 9 st = (nums, st1)"
      by (cases "shuffle_ints [1, 2, 3, 4, 5, 6, 7, 8, 9] 9 st")
    from 1[OF Some p[symmetric] refl sh[symmetric]] obtain m where
      "snd (snd (try_candidates nums row col b st1)) = advance (8 * m) st1" by blast
    with shuffle_ints_advance[OF sh] Some p sh
    have "snd (snd (solve_backtrack b st)) = advance (8 * Suc m) st"
      by (simp add: solve_backtrack.simps add.commute)
    then show ?thesis by blast
  qed
next
  case (2 row col b st)
  have "snd (snd (try_candidates [] row col b st)) = advance (8 * 0) st" by simp
  then show ?case by blast
next
  case (3 v vs row col b st)
  show ?case
  proof (cases "sudoku_can_place (Some b) (int row) (int col) v")
    case False
    with 3(3)[OF False] show ?thesis by simp
  next
    case placed: True
    obtain ok b1 st1 where r: "solve_backtrack (set_cell b row col v) st = (ok, b1, st1)"
      by (cases "solve_backtrack (set_cell b row col v) st")
    from 3(1)[OF placed] r obtain m1 where m1: "st1 = advance (8 * m1) st" by auto
    show ?thesis
    proof (cases ok)
      case True
      with placed r m1 have "snd (snd (try_candidates (v # vs) row col b st)) = advance (8 * m1) st"
        by simp
      then show ?thesis by blast
    next
      case False
      then have "ok = False" by simp
      from 3(2)[OF placed r[symmetric] this refl] obtain m2 where
        "snd (snd (try_candidates vs row col (set_cell b1 row col 0) st1)) = advance (8 * m2) st1"
        by blast
      with placed r False m1
      have "snd (snd (try_candidates (v # vs) row col b st)) = advance (8 * (m2 + m1)) st"
        by (simp add: algebra_simps)
      then show ?thesis by blast
    qed
  qed
qed

lemma seed_if_needed_id: "g_seeded st \<Longrightarrow> seed_if_needed srand st = st"
  by (simp add: seed_if_needed_def)

lemma sudoku_solve_advance:
  "\<exists>m. snd (snd (sudoku_solve srand (Some b) st)) = advance (8 * m) (seed_if_needed srand st)"
proof (cases "sudoku_is_valid_partial (Some b)")
  case False
  then have "snd (snd (sudoku_solve srand (Some b) st)) = advance (8 * 0) (seed_if_needed srand st)"
    by (simp add: sudoku_solve_invalid)
  then show ?thesis by blast
next
  case True
  obtain ok b' st' where r: "solve_backtrack b (seed_if_needed srand st) = (ok, b', st')"
    by (cases "solve_backtrack b (seed_if_needed srand st)")
  with solver_advance(1)[of b "seed_if_needed srand st"] True show ?thesis
    by (simp add: sudoku_solve_search)
qed

lemma generate_solution_advance:
  "\<exists>m. snd (snd (sudoku_generate_solution srand (Some b0) st)) =
     advance (8 * m) (seed_if_needed srand st)"
proof -
  obtain b where b: "sudoku_clear (Some b0) = Some b"
    by (simp add: sudoku_clear_def)
  obtain ok b' st' where r: "solve_backtrack b (seed_if_needed srand st) = (ok, b', st')"
    by (cases "solve_backtrack b (seed_if_needed srand st)")
  with solver_advance(1)[of b "seed_if_needed srand st"] b show ?thesis
    by (cases ok) (simp_all add: sudoku_generate_solution_def)
qed

section \<open>A stream on which every difficulty reaches its target\<close>

lemma at_pos_seed: "at_pos 0 (sudoku_seed srand_cycle seed st)"
  by (simp add: at_pos_def sudoku_seed_def srand_cycle_def)

lemma at_pos_advance: "at_pos t st \<Longrightarrow> at_pos (t + 4 * m) (advance (8 * m) st)"
  by (auto simp add: at_pos_def advance_def algebra_simps)

lemma at_pos_picks:
  assumes "at_pos t st"
  shows "rand_int 9 st = (fst (cell_of t), advance 1 st)"
    and "rand_int 9 (advance 1 st) = (snd (cell_of t), advance 2 st)"
    and "at_pos (Suc t) (advance 2 st)"
proof -
  from assms have u: "\<And>n. upcoming st n = cycle_stream (n + 2 * t)" and g: "g_seeded st"
    by (simp_all add: at_pos_def)
  have "t mod 81 div 9 < 9" by (simp add: less_mult_imp_div_less)
  then show "rand_int 9 st = (fst (cell_of t), advance 1 st)"
    by (simp add: rand_int_advance u cycle_stream_def cell_of_def)
  have "advance 1 (advance 1 st) = advance 2 st"
    by (simp add: advance_def)
  then show "rand_int 9 (advance 1 st) = (snd (cell_of t), advance 2 st)"
    by (simp add: rand_int_advance u cycle_stream_def cell_of_def del: advance_advance)
  show "at_pos (Suc t) (advance 2 st)"
    using g by (auto simp add: at_pos_def advance_def u algebra_simps)
qed

lemma cell_of_in_cells: "cell_of t \<in> set cells"
  by (simp add: cell_of_def set_cells less_mult_imp_div_less)

lemma cell_of_inj:
  assumes "cell_of (t0 + i) = cell_of (t0 + i')" "i < 81" "i' < 81"
  shows "i = i'"
proof -
  from assms(1) have "(t0 + i) mod 81 div 9 = (t0 + i') mod 81 div 9"
    "(t0 + i) mod 81 mod 9 = (t0 + i') mod 81 mod 9"
    by (simp_all add: cell_of_def)
  then have eq: "(t0 + i) mod 81 = (t0 + i') mod 81"
    by (metis div_mult_mod_eq)
  have less: "a = b" if "a \<le> b" "(t0 + a) mod 81 = (t0 + b) mod 81" "b < 81" for a b :: nat
  proof -
    from that(1,2) have "81 dvd b - a"
      using mod_eq_dvd_iff_nat[of "t0 + a" "t0 + b" 81] by simp
    moreover have "b - a < 81" using that(3) by simp
    ultimately have "b - a = 0" by (auto dest: dvd_imp_le)
    with that(1) show ?thesis by simp
  qed
  show ?thesis
  proof (cases "i \<le> i'")
    case True
    from this eq assms(3) show ?thesis by (rule less)
  next
    case False
    then have "i' \<le> i" by simp
    from this eq[symmetric] assms(2) have "i' = i" by (rule less)
    then show ?thesis by simp
  qed
qed

lemma carve_body_removes_state:
  assumes "rand_int 9 st = (rr, st1)" "rand_int 9 st1 = (cc, st2)" "cell p rr cc \<noteq> 0"
    and "completes s (set_cell p rr cc 0)"
  shows "carve_body srand (tries, p, st) =
    (tries + 1, set_cell p rr cc 0,
     snd (snd (sudoku_solve srand (Some (set_cell p rr cc 0)) st2)))"
proof -
  from assms(4) have "solvable srand (set_cell p rr cc 0)" by (rule completes_solvable)
  then have ok: "fst (sudoku_solve srand (Some (set_cell p rr cc 0)) st2) = SUDOKU_OK"
    by (simp add: solvable_def)
  obtain res tmp' st3 where
    sv: "sudoku_solve srand (Some (set_cell p rr cc 0)) st2 = (res, tmp', st3)"
    by (cases "sudoku_solve srand (Some (set_cell p rr cc 0)) st2")
  with ok have "res = SUDOKU_OK" by simp
  with assms(1-3) sv show ?thesis
    by (simp add: carve_body_def copy_into_local)
qed

lemma skipped_cells_bound:
  assumes "\<forall>i<j. cell_of (t0 + i) \<in> empties p" "j \<le> 81"
  shows "j \<le> card (empties p)"
proof -
  have "inj_on (\<lambda>i. cell_of (t0 + i)) {..<j}"
    using assms(2) by (intro inj_onI) (auto dest: cell_of_inj)
  then have "card ((\<lambda>i. cell_of (t0 + i)) ` {..<j}) = j"
    by (simp add: card_image)
  moreover have "(\<lambda>i. cell_of (t0 + i)) ` {..<j} \<subseteq> empties p"
    using assms(1) by auto
  ultimately show ?thesis
    using card_mono[OF finite_empties, of _ p] by metis
qed

lemma progress_step:
  assumes s: "filled_1_9 s" "no_repeats s" and x: "progress s x" "carve_guard target x"
    and t: "target \<le> 81"
  shows "progress s (carve_body srand x)"
proof -
  obtain tries p st where xs: "x = (tries, p, st)" by (cases x)
  let ?h = "card (empties p)"
  from x(1) xs obtain t0 j where k: "keeps_givens p s" and pos: "at_pos (t0 + j) st"
    and sk: "\<forall>i<j. cell_of (t0 + i) \<in> empties p" and jh: "j \<le> ?h"
    and tr: "2 * tries \<le> ?h * (?h + 1) + 2 * j"
    by (auto simp add: progress_def)
  from x(2) xs t have h80: "?h < 81"
    by (simp add: carve_guard_def count_holes_card)
  obtain rr cc where rc: "cell_of (t0 + j) = (rr, cc)" by (cases "cell_of (t0 + j)")
  with at_pos_picks[OF pos] have picks: "rand_int 9 st = (rr, advance 1 st)"
    "rand_int 9 (advance 1 st) = (cc, advance 2 st)" and pos2: "at_pos (Suc (t0 + j)) (advance 2 st)"
    by simp_all
  from cell_of_in_cells[of "t0 + j"] rc have in_cells: "(rr, cc) \<in> set cells" by simp
  then have lt: "rr < 9" "cc < 9" by (simp_all add: set_cells)
  show ?thesis
  proof (cases "cell p rr cc = 0")
    case True
    with picks have b: "carve_body srand (tries, p, st) = (tries + 1, p, advance 2 st)"
      by (rule carve_body_skip)
    from True in_cells rc have "cell_of (t0 + j) \<in> empties p"
      by (simp add: empties_def)
    with sk have sk': "\<forall>i<Suc j. cell_of (t0 + i) \<in> empties p"
      by (auto simp add: less_Suc_eq)
    moreover from jh h80 have "Suc j \<le> 81" by simp
    ultimately have "Suc j \<le> ?h" by (rule skipped_cells_bound)
    moreover from pos2 have "at_pos (t0 + Suc j) (advance 2 st)" by simp
    moreover from tr have "2 * (tries + 1) \<le> ?h * (?h + 1) + 2 * Suc j" by simp
    ultimately have "\<exists>t0 j. at_pos (t0 + j) (advance 2 st) \<and>
        (\<forall>i<j. cell_of (t0 + i) \<in> empties p) \<and> j \<le> ?h \<and>
        2 * (tries + 1) \<le> ?h * (?h + 1) + 2 * j"
      using sk' by blast
    with k xs b show ?thesis
      unfolding progress_def by simp
  next
    case False
    let ?p = "set_cell p rr cc 0"
    from k have k': "keeps_givens ?p s" by (rule keeps_givens_remove)
    with s have "completes s ?p" by (simp add: completes_def)
    from carve_body_removes_state[OF picks False this]
    have b: "carve_body srand (tries, p, st) =
      (tries + 1, ?p, snd (snd (sudoku_solve srand (Some ?p) (advance 2 st))))" .
    from pos2 have "seed_if_needed srand (advance 2 st) = advance 2 st"
      by (simp add: seed_if_needed_id at_pos_def)
    with sudoku_solve_advance[of srand ?p "advance 2 st"] obtain m where
      "snd (snd (sudoku_solve srand (Some ?p) (advance 2 st))) = advance (8 * m) (advance 2 st)"
      by auto
    with at_pos_advance[OF pos2, of m]
    have pos3: "at_pos (Suc (t0 + j) + 4 * m + 0)
        (snd (snd (sudoku_solve srand (Some ?p) (advance 2 st))))"
      by simp
    from False in_cells have "(rr, cc) \<notin> empties p" by (simp add: empties_def)
    with lt have card: "card (empties ?p) = Suc ?h"
      by (simp add: empties_zero finite_empties)
    from tr jh have "2 * (tries + 1) \<le> Suc ?h * (Suc ?h + 1) + 2 * 0"
      by (simp add: algebra_simps)
    with card have "2 * (tries + 1) \<le> card (empties ?p) * (card (empties ?p) + 1) + 2 * 0"
      by simp
    moreover have "\<forall>i<0::nat. cell_of (Suc (t0 + j) + 4 * m + i) \<in> empties ?p" by simp
    moreover have "(0::nat) \<le> card (empties ?p)" by simp
    ultimately have "\<exists>t0 j. at_pos (t0 + j) (snd (snd (sudoku_solve srand (Some ?p) (advance 2 st)))) \<and>
        (\<forall>i<j. cell_of (t0 + i) \<in> empties ?p) \<and> j \<le> card (empties ?p) \<and>
        2 * (tries + 1) \<le> card (empties ?p) * (card (empties ?p) + 1) + 2 * j"
      using pos3 by blast
    with k' xs b show ?thesis
      unfolding progress_def by simp
  qed
qed

lemma holes_for_difficulty_le: "sudoku_holes_for_difficulty d \<le> 55"
  by (simp add: sudoku_holes_for_difficulty_def)

text \<open>On this stream the loop ends before the budget of tries is spent.\<close>

lemma cycle_run_in_budget:
  assumes "\<not> g_seeded st"
  shows "snd (sudoku_generate_puzzle_run srand_cycle (Some p0) (Some s0) d st) < max_tries"
proof -
  let ?target = "sudoku_holes_for_difficulty d"
  from generate_puzzle_run_Some[of srand_cycle s0 st d p0] obtain s st1 tries p st2 where
    g: "sudoku_generate_solution srand_cycle (Some s0) (seed_if_needed srand_cycle st) =
      (SUDOKU_OK, Some s, st1)" and
    s: "filled_1_9 s" "sudoku_is_valid_partial (Some s)" and
    l: "carve_loop srand_cycle ?target (0, s, st1) = (tries, p, st2)" and
    r: "sudoku_generate_puzzle_run srand_cycle (Some p0) (Some s0) d st =
      ((SUDOKU_OK, Some p, Some s, st2), tries)"
    by blast
  from assms have seeded: "seed_if_needed srand_cycle st = sudoku_seed srand_cycle 0 st"
    by (rule seed_if_needed_unseeded)
  from generate_solution_advance[of srand_cycle s0 "seed_if_needed srand_cycle st"] g seeded
  obtain m where "st1 = advance (8 * m) (sudoku_seed srand_cycle 0 st)"
    by (auto simp add: seed_if_needed_seeded)
  with at_pos_advance[OF at_pos_seed, of m 0 st] have "at_pos (4 * m + 0) st1" by simp
  moreover have "\<forall>i<0::nat. cell_of (4 * m + i) \<in> empties s" by simp
  moreover have "(0::nat) \<le> card (empties s)"
    "2 * (0::nat) \<le> card (empties s) * (card (empties s) + 1) + 2 * 0" by simp_all
  ultimately have "\<exists>t0 j. at_pos (t0 + j) st1 \<and> (\<forall>i<j. cell_of (t0 + i) \<in> empties s) \<and>
      j \<le> card (empties s) \<and> 2 * (0::nat) \<le> card (empties s) * (card (empties s) + 1) + 2 * j"
    by blast
  then have start: "progress s (0, s, st1)"
    unfolding progress_def using keeps_givens_refl[of s] by simp
  from s have nr: "no_repeats s" by (simp add: valid_partial_spec)
  have t81: "?target \<le> 81" using holes_for_difficulty_le[of d] by simp
  have "progress s (carve_loop srand_cycle ?target (0, s, st1))"
    using carve_loop_rule[where P = "progress s" and srand = srand_cycle
        and target = ?target and s = "(0, s, st1)", OF start]
      progress_step[OF s(1) nr _ _ t81]
    by blast
  with l obtain j where jh: "j \<le> card (empties p)"
    and tr: "2 * tries \<le> card (empties p) * (card (empties p) + 1) + 2 * j"
    by (auto simp add: progress_def)
  from s(1) have "count_holes s \<le> ?target"
    by (simp add: filled_count_holes holes_for_difficulty_nonneg)
  from carve_loop_holes[OF l this] have "count_holes p \<le> 55"
    using holes_for_difficulty_le[of d] by simp
  then have h: "card (empties p) \<le> 55" by (simp add: count_holes_card)
  then have "card (empties p) * (card (empties p) + 1) \<le> 55 * 56"
    by (intro mult_le_mono) simp_all
  with tr jh h have "tries < 2000" by simp
  with r show ?thesis by (simp add: max_tries_def)
qed

section \<open>Outside the grid, and before the call\<close>

lemma zero_cells_empties: "zero_cells b = empties b"
  by (simp add: zero_cells_def empties_def set_cells)

lemma count_holes_zero_cells: "count_holes b = int (card (zero_cells b))"
  by (simp add: count_holes_card zero_cells_empties)

lemma cell_off_grid: "r < 9 \<Longrightarrow> c < 9 \<Longrightarrow> cell (off_grid j b) r c = cell b r c"
  by (simp add: off_grid_def)

lemma set_cell_off_grid:
  "r < 9 \<Longrightarrow> c < 9 \<Longrightarrow> set_cell (off_grid j b) r c v = off_grid j (set_cell b r c v)"
  by (auto simp add: off_grid_def set_cell_def fun_eq_iff)

lemma rows_of_off_grid: "rows_of (off_grid j b) = rows_of b"
  by (simp add: rows_of_def cell_off_grid)

lemma can_place_off_grid:
  "sudoku_can_place (Some (off_grid j b)) row col v = sudoku_can_place (Some b) row col v"
proof (cases "0 \<le> row \<and> row < 9 \<and> 0 \<le> col \<and> col < 9")
  case False
  then show ?thesis by (auto simp add: can_place_spec)
next
  case True
  then have "nat row < 9" "nat col < 9" by auto
  then have "appears_in_row (off_grid j b) (nat row) v = appears_in_row b (nat row) v"
    "appears_in_col (off_grid j b) (nat col) v = appears_in_col b (nat col) v"
    "appears_in_box (off_grid j b) (nat row) (nat col) v = appears_in_box b (nat row) (nat col) v"
    by (simp_all add: appears_in_row_def appears_in_col_def appears_in_box_def cell_off_grid)
  then show ?thesis by (simp add: can_place_spec)
qed

lemma find_empty_cell_off_grid: "find_empty_cell (off_grid j b) = find_empty_cell b"
  unfolding find_empty_cell_def
  by (rule find_cong) (auto simp add: set_cells cell_off_grid)

lemma valid_partial_off_grid:
  "sudoku_is_valid_partial (Some (off_grid j b)) = sudoku_is_valid_partial (Some b)"
  by (simp add: valid_partial_spec cells_in_0_9_def no_repeats_def cell_off_grid)

lemma count_holes_off_grid: "count_holes (off_grid j b) = count_holes b"
proof -
  have "empties (off_grid j b) = empties b"
    by (auto simp add: empties_def set_cells cell_off_grid)
  then show ?thesis by (simp add: count_holes_card)
qed


text \<open>The search neither reads nor writes outside the grid.\<close>

lemma solver_off_grid:
  "solve_backtrack (off_grid j b) st =
     (case solve_backtrack b st of (ok, b', st') \<Rightarrow> (ok, off_grid j b', st'))"
  "row < 9 \<Longrightarrow> col < 9 \<Longrightarrow>
     try_candidates vs row col (off_grid j b) st =
       (case try_candidates vs row col b st of (ok, b', st') \<Rightarrow> (ok, off_grid j b', st'))"
proof (induction b st and vs row col b st rule: solve_backtrack_try_candidates.induct)
  case (1 b st)
  show ?case
  proof (cases "find_empty_cell b")
    case None
    then show ?thesis
      by (simp add: solve_backtrack.simps find_empty_cell_off_grid)
  next
    case (Some p)
    obtain row col where p: "p = (row, col)" by (cases p)
    obtain nums st1 where sh: "shuffle_ints [1, 2, 3, 4, 5, 6, 7, 8, 9] 9 st = (nums, st1)"
      by (cases "shuffle_ints [1, 2, 3, 4, 5, 6, 7, 8, 9] 9 st")
    have "row < 9" "col < 9" using find_empty_cell_Some Some p by simp_all
    from 1[OF Some p[symmetric] refl sh[symmetric] this] Some p sh show ?thesis
      by (simp add: solve_backtrack.simps find_empty_cell_off_grid)
  qed
next
  case (2 row col b st)
  show ?case by simp
next
  case (3 v vs row col b st)
  note rc = \<open>row < 9\<close> \<open>col < 9\<close>
  show ?case
  proof (cases "sudoku_can_place (Some b) (int row) (int col) v")
    case False
    with 3(3)[OF False rc] show ?thesis by (simp add: can_place_off_grid)
  next
    case placed: True
    obtain ok b1 st1 where r: "solve_backtrack (set_cell b row col v) st = (ok, b1, st1)"
      by (cases "solve_backtrack (set_cell b row col v) st")
    from 3(1)[OF placed] r rc
    have r': "solve_backtrack (set_cell (off_grid j b) row col v) st = (ok, off_grid j b1, st1)"
      by (simp add: set_cell_off_grid)
    show ?thesis
    proof (cases ok)
      case True
      with placed r r' show ?thesis by (simp add: can_place_off_grid)
    next
      case False
      then have "ok = False" by simp
      from 3(2)[OF placed r[symmetric] this refl rc]
      have "try_candidates vs row col (off_grid j (set_cell b1 row col 0)) st1 =
        (case try_candidates vs row col (set_cell b1 row col 0) st1 of
           (ok, b', st') \<Rightarrow> (ok, off_grid j b', st'))" .
      with placed r r' False rc show ?thesis
        by (simp add: can_place_off_grid set_cell_off_grid)
    qed
  qed
qed

lemma sudoku_solve_off_grid:
  "sudoku_solve srand (Some (off_grid j b)) st =
     (case sudoku_solve srand (Some b) st of
        (res, b', st') \<Rightarrow> (res, map_option (off_grid j) b', st'))"
  by (simp add: sudoku_solve_def valid_partial_off_grid solver_off_grid(1) Let_def
      split: prod.splits bool.splits)

lemma carve_body_off_grid:
  "carve_body srand (tries, off_grid j p, st) =
     (case carve_body srand (tries, p, st) of (t', p', st') \<Rightarrow> (t', off_grid j p', st'))"
proof -
  obtain rr st1 where rr: "rand_int 9 st = (rr, st1)" by (cases "rand_int 9 st")
  obtain cc st2 where cc: "rand_int 9 st1 = (cc, st2)" by (cases "rand_int 9 st1")
  have lt: "rr < 9" "cc < 9"
    using rand_int_less[of 9 st] rand_int_less[of 9 st1] rr cc by simp_all
  obtain res tmp' st3 where sv: "sudoku_solve srand (Some (set_cell p rr cc 0)) st2 = (res, tmp', st3)"
    by (cases "sudoku_solve srand (Some (set_cell p rr cc 0)) st2")
  then have sv': "sudoku_solve srand (Some (off_grid j (set_cell p rr cc 0))) st2 =
      (res, map_option (off_grid j) tmp', st3)"
    by (simp add: sudoku_solve_off_grid)
  show ?thesis
    using rr cc lt sv sv'
    by (simp add: carve_body_def copy_into_local cell_off_grid set_cell_off_grid Let_def)
qed

lemma carve_guard_off_grid:
  "carve_guard target (tries, off_grid j p, st) = carve_guard target (tries, p, st)"
  by (simp add: carve_guard_def count_holes_off_grid)

lemma carve_loop_off_grid:
  "carve_loop srand target (tries, off_grid j p, st) =
     (case carve_loop srand target (tries, p, st) of (t', p', st') \<Rightarrow> (t', off_grid j p', st'))"
proof (induction srand target "(tries, p, st)" arbitrary: tries p st rule: carve_loop.induct)
  case (1 srand target)
  show ?case
  proof (cases "carve_guard target (tries, p, st)")
    case False
    then show ?thesis
      by (subst (1 2) carve_loop.simps) (simp add: carve_guard_off_grid)
  next
    case True
    obtain t' p' st' where b: "carve_body srand (tries, p, st) = (t', p', st')"
      by (cases "carve_body srand (tries, p, st)")
    from 1[OF True b] True b show ?thesis
      by (subst (1 2) carve_loop.simps) (simp add: carve_guard_off_grid carve_body_off_grid)
  qed
qed

lemma board_eqI: "(\<And>r c. cell b r c = cell b' r c) \<Longrightarrow> b = (b' :: SudokuBoard)"
  by (cases b, cases b') (simp add: fun_eq_iff)

lemma clear_off_grid:
  "sudoku_clear (Some b2) = map_option (off_grid (cell b2)) (sudoku_clear (Some b1))"
proof -
  have "fold (\<lambda>(r, c) b'. set_cell b' r c 0) cells b2 =
      off_grid (cell b2) (fold (\<lambda>(r, c) b'. set_cell b' r c 0) cells b1)"
    by (rule board_eqI) (auto simp add: off_grid_def cell_clear_fold set_cells)
  then show ?thesis by (simp add: sudoku_clear_def)
qed

lemma generate_solution_off_grid:
  "sudoku_generate_solution srand (Some s2) st =
     (case sudoku_generate_solution srand (Some s1) st of
        (res, b, st') \<Rightarrow> (res, map_option (off_grid (cell s2)) b, st'))"
proof -
  obtain b where b: "sudoku_clear (Some s1) = Some b"
    by (simp add: sudoku_clear_def)
  with clear_off_grid[of s2 s1] have b2: "sudoku_clear (Some s2) = Some (off_grid (cell s2) b)"
    by simp
  show ?thesis
    by (simp add: sudoku_generate_solution_def b b2 solver_off_grid(1) Let_def
        split: prod.splits bool.splits)
qed

text \<open>
  What the two boards held before the call does not show in what
  \<open>sudoku_generate_puzzle\<close> leaves in the 81 cells of each, returns, or leaves of the stream.
\<close>

lemma generate_puzzle_run_buffers:
  "\<exists>res p s st' tries.
     sudoku_generate_puzzle_run srand (Some p1) (Some s1) d st =
       ((res, Some p, Some s, st'), tries) \<and>
     sudoku_generate_puzzle_run srand (Some p2) (Some s2) d st =
       ((res, Some (off_grid (cell s2) p), Some (off_grid (cell s2) s), st'), tries)"
proof -
  let ?target = "sudoku_holes_for_difficulty d"
  from generate_puzzle_run_Some[of srand s1 st d p1] obtain s st1 tries p st2 where
    g: "sudoku_generate_solution srand (Some s1) (seed_if_needed srand st) =
      (SUDOKU_OK, Some s, st1)" and
    l: "carve_loop srand ?target (0, s, st1) = (tries, p, st2)" and
    r: "sudoku_generate_puzzle_run srand (Some p1) (Some s1) d st =
      ((SUDOKU_OK, Some p, Some s, st2), tries)"
    by blast
  from g generate_solution_off_grid[of srand s2 "seed_if_needed srand st" s1]
  have g2: "sudoku_generate_solution srand (Some s2) (seed_if_needed srand st) =
      (SUDOKU_OK, Some (off_grid (cell s2) s), st1)"
    by simp
  from l carve_loop_off_grid[of srand ?target 0 "cell s2" s st1]
  have l2: "carve_loop srand ?target (0, off_grid (cell s2) s, st1) =
      (tries, off_grid (cell s2) p, st2)"
    by simp
  have "sudoku_copy (Some p2) (Some (off_grid (cell s2) s)) = Some (off_grid (cell s2) s)"
    by (rule copy_into_local)
  with g2 l2 have "sudoku_generate_puzzle_run srand (Some p2) (Some s2) d st =
      ((SUDOKU_OK, Some (off_grid (cell s2) p), Some (off_grid (cell s2) s), st2), tries)"
    by (simp add: sudoku_generate_puzzle_run_def)
  with r show ?thesis by blast
qed

lemma generate_puzzle_buffers:
  "observed (sudoku_generate_puzzle srand (Some p1) (Some s1) d st) =
   observed (sudoku_generate_puzzle srand (Some p2) (Some s2) d st)"
  using generate_puzzle_run_buffers[of srand p1 s1 d st p2 s2]
  by (auto simp add: sudoku_generate_puzzle_def observed_def rows_of_off_grid)

lemma observed_state: "observed x = observed y \<Longrightarrow> snd (snd (snd x)) = snd (snd (snd y))"
  by (auto simp add: observed_def split: prod.splits)

lemma buffers_differ:
  "rows_of dead_end \<noteq> rows_of two_holes" "rows_of repeated_row \<noteq> rows_of example_grid"
  by code_simp+

section \<open>The properties claimed of the module\<close>

text \<open>
  C1: \<open>sudoku_solve\<close> answers a null board with \<open>SUDOKU_ERR_INVALID_ARG\<close>; a board that
  \<open>sudoku_is_valid_partial\<close> rejects, or on which the search started at the root returns
  0, with \<open>SUDOKU_ERR_UNSOLVABLE\<close>; and whenever it answers \<open>SUDOKU_OK\<close> the board it
  leaves has all 81 cells in 1..9, passes \<open>sudoku_is_valid_partial\<close>, repeats no digit in
  a row, column or box, and has every non-zero cell of the input where it was.
\<close>

theorem sudoku_solve_contract:
  "fst (sudoku_solve srand None st) = SUDOKU_ERR_INVALID_ARG \<and>
   (\<not> sudoku_is_valid_partial (Some b) \<longrightarrow>
      fst (sudoku_solve srand (Some b) st) = SUDOKU_ERR_UNSOLVABLE) \<and>
   (sudoku_is_valid_partial (Some b) \<and> \<not> fst (solve_backtrack b (seed_if_needed srand st)) \<longrightarrow>
      fst (sudoku_solve srand (Some b) st) = SUDOKU_ERR_UNSOLVABLE) \<and>
   (fst (sudoku_solve srand (Some b) st) = SUDOKU_OK \<longrightarrow>
      (\<exists>s. fst (snd (sudoku_solve srand (Some b) st)) = Some s \<and> filled_1_9 s \<and>
           sudoku_is_valid_partial (Some s) \<and> no_repeats s \<and> keeps_givens b s))"
proof (intro conjI impI)
  show "fst (sudoku_solve srand None st) = SUDOKU_ERR_INVALID_ARG"
    by (simp add: sudoku_solve_null)
next
  assume "\<not> sudoku_is_valid_partial (Some b)"
  then show "fst (sudoku_solve srand (Some b) st) = SUDOKU_ERR_UNSOLVABLE"
    by (simp add: sudoku_solve_invalid)
next
  assume a: "sudoku_is_valid_partial (Some b) \<and>
    \<not> fst (solve_backtrack b (seed_if_needed srand st))"
  obtain ok b' st' where "solve_backtrack b (seed_if_needed srand st) = (ok, b', st')"
    by (cases "solve_backtrack b (seed_if_needed srand st)")
  with a show "fst (sudoku_solve srand (Some b) st) = SUDOKU_ERR_UNSOLVABLE"
    by (simp add: sudoku_solve_def)
next
  assume ok: "fst (sudoku_solve srand (Some b) st) = SUDOKU_OK"
  obtain b' st' where r: "sudoku_solve srand (Some b) st = (SUDOKU_OK, b', st')"
    using ok by (cases "sudoku_solve srand (Some b) st") simp
  from sudoku_solve_OK_solution[OF r] r
  show "\<exists>s. fst (snd (sudoku_solve srand (Some b) st)) = Some s \<and> filled_1_9 s \<and>
     sudoku_is_valid_partial (Some s) \<and> no_repeats s \<and> keeps_givens b s"
    by simp
qed

theorem sudoku_solve_contract_witness:
  "fst (sudoku_solve srand_zero None unseeded_zero) = SUDOKU_ERR_INVALID_ARG \<and>
   \<not> sudoku_is_valid_partial (Some repeated_row) \<and>
   fst (sudoku_solve srand_zero (Some repeated_row) unseeded_zero) = SUDOKU_ERR_UNSOLVABLE \<and>
   sudoku_is_valid_partial (Some dead_end) \<and>
   \<not> fst (solve_backtrack dead_end (seed_if_needed srand_zero unseeded_zero)) \<and>
   fst (sudoku_solve srand_zero (Some dead_end) unseeded_zero) = SUDOKU_ERR_UNSOLVABLE \<and>
   fst (sudoku_solve srand_zero (Some two_holes) unseeded_zero) = SUDOKU_OK \<and>
   (\<exists>s. fst (snd (sudoku_solve srand_zero (Some two_holes) unseeded_zero)) = Some s \<and>
        filled_1_9 s \<and> sudoku_is_valid_partial (Some s) \<and> no_repeats s \<and>
        keeps_givens two_holes s \<and> rows_of s = rows_of example_grid)"
proof -
  from sudoku_solve_contract[of srand_zero unseeded_zero two_holes] two_holes_solved
  obtain s where s: "fst (snd (sudoku_solve srand_zero (Some two_holes) unseeded_zero)) = Some s"
    "filled_1_9 s" "sudoku_is_valid_partial (Some s)" "no_repeats s" "keeps_givens two_holes s"
    by blast
  with two_holes_result have "rows_of s = rows_of example_grid" by simp
  with s show ?thesis
    using sudoku_solve_contract[of srand_zero unseeded_zero repeated_row]
      sudoku_solve_contract[of srand_zero unseeded_zero dead_end]
      repeated_row_invalid dead_end_valid dead_end_exhausts two_holes_solved
    by blast
qed

text \<open>
  C2: when \<open>sudoku_generate_solution\<close> returns \<open>SUDOKU_OK\<close>, and when
  \<open>sudoku_generate_puzzle\<close> does, the solution board has every cell in 1..9, passes
  \<open>sudoku_is_valid_partial\<close> and repeats no digit in a row, a column or a box.
\<close>

theorem generated_solution_valid:
  "(fst (sudoku_generate_solution srand out_solution st) = SUDOKU_OK \<longrightarrow>
      (\<exists>s. fst (snd (sudoku_generate_solution srand out_solution st)) = Some s \<and>
           filled_1_9 s \<and> sudoku_is_valid_partial (Some s) \<and> no_repeats s)) \<and>
   (fst (sudoku_generate_puzzle srand out_puzzle out_solution d st) = SUDOKU_OK \<longrightarrow>
      (\<exists>s. fst (snd (snd (sudoku_generate_puzzle srand out_puzzle out_solution d st))) = Some s \<and>
           filled_1_9 s \<and> sudoku_is_valid_partial (Some s) \<and> no_repeats s))"
proof (intro conjI impI)
  assume ok: "fst (sudoku_generate_solution srand out_solution st) = SUDOKU_OK"
  then obtain b0 where "out_solution = Some b0"
    by (cases out_solution) (simp_all add: generate_solution_null)
  with generate_solution_OK[of srand b0 st]
  show "\<exists>s. fst (snd (sudoku_generate_solution srand out_solution st)) = Some s \<and>
      filled_1_9 s \<and> sudoku_is_valid_partial (Some s) \<and> no_repeats s"
    by (auto simp add: valid_partial_spec)
next
  assume "fst (sudoku_generate_puzzle srand out_puzzle out_solution d st) = SUDOKU_OK"
  then obtain p0 s0 where "out_puzzle = Some p0" "out_solution = Some s0"
    by (auto simp add: generate_puzzle_OK_iff)
  with generate_puzzle_run_Some[of srand s0 st d p0]
  show "\<exists>s. fst (snd (snd (sudoku_generate_puzzle srand out_puzzle out_solution d st))) = Some s \<and>
      filled_1_9 s \<and> sudoku_is_valid_partial (Some s) \<and> no_repeats s"
    by (auto simp add: sudoku_generate_puzzle_def valid_partial_spec)
qed

theorem generated_solution_valid_witness:
  "fst (sudoku_generate_solution srand_zero (Some dead_end) unseeded_zero) = SUDOKU_OK \<and>
   (\<exists>s. fst (snd (sudoku_generate_solution srand_zero (Some dead_end) unseeded_zero)) = Some s \<and>
        filled_1_9 s \<and> sudoku_is_valid_partial (Some s) \<and> no_repeats s) \<and>
   fst (sudoku_generate_puzzle srand_zero (Some repeated_row) (Some dead_end)
          SUDOKU_DIFFICULTY_EASY unseeded_zero) = SUDOKU_OK \<and>
   (\<exists>s. fst (snd (snd (sudoku_generate_puzzle srand_zero (Some repeated_row) (Some dead_end)
          SUDOKU_DIFFICULTY_EASY unseeded_zero))) = Some s \<and>
        filled_1_9 s \<and> sudoku_is_valid_partial (Some s) \<and> no_repeats s)"
proof -
  have "fst (sudoku_generate_solution srand_zero (Some dead_end) unseeded_zero) = SUDOKU_OK"
    using generate_solution_OK[of srand_zero dead_end unseeded_zero] by auto
  moreover have "fst (sudoku_generate_puzzle srand_zero (Some repeated_row) (Some dead_end)
      SUDOKU_DIFFICULTY_EASY unseeded_zero) = SUDOKU_OK"
    by (simp add: generate_puzzle_OK_iff)
  ultimately show ?thesis
    using generated_solution_valid[of srand_zero "Some dead_end" unseeded_zero
        "Some repeated_row" SUDOKU_DIFFICULTY_EASY]
    by blast
qed

text \<open>
  C3: when \<open>sudoku_generate_puzzle\<close> returns \<open>SUDOKU_OK\<close>, every non-zero cell of the puzzle
  is the solution's cell at that place; the number of zero cells of the puzzle, which is
  what \<^verbatim>\<open>count_holes\<close> returns, is at most \<open>sudoku_holes_for_difficulty\<close>, and is exactly
  that when the loop ended with \<^verbatim>\<open>tries\<close> below 2000.
\<close>

theorem generated_puzzle_holes:
  "sudoku_generate_puzzle srand out_puzzle out_solution d st = (SUDOKU_OK, puzzle, solution, st') \<Longrightarrow>
     \<exists>p s. puzzle = Some p \<and> solution = Some s \<and> keeps_givens p s \<and>
       count_holes p = int (card (zero_cells p)) \<and>
       int (card (zero_cells p)) \<le> sudoku_holes_for_difficulty d \<and>
       (snd (sudoku_generate_puzzle_run srand out_puzzle out_solution d st) < max_tries \<longrightarrow>
          int (card (zero_cells p)) = sudoku_holes_for_difficulty d)"
proof -
  assume a: "sudoku_generate_puzzle srand out_puzzle out_solution d st =
    (SUDOKU_OK, puzzle, solution, st')"
  then have "fst (sudoku_generate_puzzle srand out_puzzle out_solution d st) = SUDOKU_OK"
    by simp
  then obtain p0 s0 where out: "out_puzzle = Some p0" "out_solution = Some s0"
    by (auto simp add: generate_puzzle_OK_iff)
  from generate_puzzle_run_Some[of srand s0 st d p0] obtain s st1 tries p st2 where
    s: "filled_1_9 s" and
    l: "carve_loop srand (sudoku_holes_for_difficulty d) (0, s, st1) = (tries, p, st2)" and
    r: "sudoku_generate_puzzle_run srand (Some p0) (Some s0) d st =
      ((SUDOKU_OK, Some p, Some s, st2), tries)"
    by blast
  from s have "count_holes s \<le> sudoku_holes_for_difficulty d"
    by (simp add: filled_count_holes holes_for_difficulty_nonneg)
  from carve_loop_holes[OF l this] a r out show ?thesis
    by (auto simp add: sudoku_generate_puzzle_def count_holes_zero_cells)
qed

text \<open>
  A run of \<open>sudoku_generate_puzzle\<close> from an unseeded state, with the generator that walks
  through the cells: it returns \<open>SUDOKU_OK\<close>, ends with tries to spare, and its Easy
  puzzle has exactly 35 zero cells.
\<close>

theorem generated_puzzle_holes_witness:
  "fst (sudoku_generate_puzzle srand_cycle (Some repeated_row) (Some dead_end)
       SUDOKU_DIFFICULTY_EASY unseeded_zero) = SUDOKU_OK \<and>
   snd (sudoku_generate_puzzle_run srand_cycle (Some repeated_row) (Some dead_end)
       SUDOKU_DIFFICULTY_EASY unseeded_zero) < max_tries \<and>
   (\<exists>p s st'. sudoku_generate_puzzle srand_cycle (Some repeated_row) (Some dead_end)
       SUDOKU_DIFFICULTY_EASY unseeded_zero = (SUDOKU_OK, Some p, Some s, st') \<and>
     keeps_givens p s \<and> count_holes p = 35 \<and> card (zero_cells p) = 35)"
proof -
  have ok: "fst (sudoku_generate_puzzle srand_cycle (Some repeated_row) (Some dead_end)
      SUDOKU_DIFFICULTY_EASY unseeded_zero) = SUDOKU_OK"
    by (simp add: generate_puzzle_OK_iff)
  then obtain puzzle solution st' where r:
    "sudoku_generate_puzzle srand_cycle (Some repeated_row) (Some dead_end)
       SUDOKU_DIFFICULTY_EASY unseeded_zero = (SUDOKU_OK, puzzle, solution, st')"
    by (cases "sudoku_generate_puzzle srand_cycle (Some repeated_row) (Some dead_end)
       SUDOKU_DIFFICULTY_EASY unseeded_zero") auto
  have "\<not> g_seeded unseeded_zero" by (simp add: unseeded_zero_def)
  then have budget: "snd (sudoku_generate_puzzle_run srand_cycle (Some repeated_row)
      (Some dead_end) SUDOKU_DIFFICULTY_EASY unseeded_zero) < max_tries"
    by (rule cycle_run_in_budget)
  have "sudoku_holes_for_difficulty SUDOKU_DIFFICULTY_EASY = 35"
    by (simp add: sudoku_holes_for_difficulty_def)
  with generated_puzzle_holes[OF r] r budget ok show ?thesis
    by auto
qed

text \<open>
  C4: a pass of the removal loop leaves a solvable puzzle solvable, so the puzzle is
  solvable after any number of passes from a filled valid solution, and the puzzle of a
  run of \<open>sudoku_generate_puzzle\<close> that returns \<open>SUDOKU_OK\<close> is solvable:
  \<open>sudoku_solve\<close> returns \<open>SUDOKU_OK\<close> on it whatever the state of the random stream.
\<close>

theorem carving_keeps_solvable:
  "(solvable srand p \<longrightarrow> solvable srand (fst (snd (carve_body srand (tries, p, st))))) \<and>
   (filled_1_9 s \<and> sudoku_is_valid_partial (Some s) \<longrightarrow>
      solvable srand (fst (snd ((carve_body srand ^^ n) (0, s, st))))) \<and>
   (fst (sudoku_generate_puzzle srand out_puzzle out_solution d st) = SUDOKU_OK \<longrightarrow>
      (\<exists>q. fst (snd (sudoku_generate_puzzle srand out_puzzle out_solution d st)) = Some q \<and>
           solvable srand q))"
proof (intro conjI impI)
  assume "solvable srand p"
  then show "solvable srand (fst (snd (carve_body srand (tries, p, st))))"
    by (rule carve_body_solvable)
next
  assume "filled_1_9 s \<and> sudoku_is_valid_partial (Some s)"
  then have "solvable srand s"
    using filled_valid_completes completes_solvable by blast
  then show "solvable srand (fst (snd ((carve_body srand ^^ n) (0, s, st))))"
    by (rule carve_iterates_solvable)
next
  assume "fst (sudoku_generate_puzzle srand out_puzzle out_solution d st) = SUDOKU_OK"
  then obtain p0 s0 where out: "out_puzzle = Some p0" "out_solution = Some s0"
    by (auto simp add: generate_puzzle_OK_iff)
  from generate_puzzle_run_Some[of srand s0 st d p0] obtain s1 st1 tries1 q st2 where
    s: "filled_1_9 s1" "sudoku_is_valid_partial (Some s1)" and
    l: "carve_loop srand (sudoku_holes_for_difficulty d) (0, s1, st1) = (tries1, q, st2)" and
    r: "sudoku_generate_puzzle_run srand (Some p0) (Some s0) d st =
      ((SUDOKU_OK, Some q, Some s1, st2), tries1)"
    by blast
  from s have "solvable srand s1"
    using filled_valid_completes completes_solvable by blast
  from carve_loop_solvable[OF this, of "sudoku_holes_for_difficulty d" 0 st1] l
  have "solvable srand q" by simp
  with r out
  show "\<exists>q. fst (snd (sudoku_generate_puzzle srand out_puzzle out_solution d st)) = Some q \<and>
      solvable srand q"
    by (simp add: sudoku_generate_puzzle_def)
qed

theorem carving_keeps_solvable_witness:
  "solvable srand_zero example_grid \<and>
   solvable srand_zero (fst (snd (carve_body srand_zero (0, example_grid, seeded_zero)))) \<and>
   filled_1_9 example_grid \<and> sudoku_is_valid_partial (Some example_grid) \<and>
   solvable srand_zero (fst (snd ((carve_body srand_zero ^^ 3) (0, example_grid, seeded_zero)))) \<and>
   fst (sudoku_generate_puzzle srand_zero (Some repeated_row) (Some dead_end)
          SUDOKU_DIFFICULTY_HARD unseeded_zero) = SUDOKU_OK \<and>
   (\<exists>q. fst (snd (sudoku_generate_puzzle srand_zero (Some repeated_row) (Some dead_end)
          SUDOKU_DIFFICULTY_HARD unseeded_zero)) = Some q \<and> solvable srand_zero q)"
proof -
  have "fst (sudoku_generate_puzzle srand_zero (Some repeated_row) (Some dead_end)
      SUDOKU_DIFFICULTY_HARD unseeded_zero) = SUDOKU_OK"
    by (simp add: generate_puzzle_OK_iff)
  then show ?thesis
    using carving_keeps_solvable[where srand = srand_zero and p = example_grid and tries = 0
        and st = seeded_zero and s = example_grid and n = 3]
      carving_keeps_solvable[where srand = srand_zero and st = unseeded_zero
        and out_puzzle = "Some repeated_row" and out_solution = "Some dead_end"
        and d = SUDOKU_DIFFICULTY_HARD]
      example_grid_solvable example_grid_filled example_grid_valid
    by blast
qed

text \<open>
  C5: \<open>sudoku_can_place\<close> is false whenever the row or the column is outside 0..8 or the
  value outside 1..9, and otherwise false exactly when the value already stands in the
  row, in the column or in the 3x3 box of the cell. The function returns a truth value
  only: the board it is given is not written.
\<close>

theorem sudoku_can_place_correct:
  "sudoku_can_place (Some b) row col val =
     (0 \<le> row \<and> row < 9 \<and> 0 \<le> col \<and> col < 9 \<and> 1 \<le> val \<and> val \<le> 9 \<and>
      \<not> appears_in_row b (nat row) val \<and> \<not> appears_in_col b (nat col) val \<and>
      \<not> appears_in_box b (nat row) (nat col) val)"
  by (rule can_place_spec)

theorem sudoku_can_place_correct_witness:
  "sudoku_can_place (Some two_holes) 8 7 5 \<and>
   \<not> appears_in_row two_holes 8 5 \<and> \<not> appears_in_col two_holes 7 5 \<and>
   \<not> appears_in_box two_holes 8 7 5 \<and>
   \<not> sudoku_can_place (Some two_holes) 8 7 3 \<and>
   (appears_in_row two_holes 8 3 \<or> appears_in_col two_holes 7 3 \<or>
    appears_in_box two_holes 8 7 3) \<and>
   \<not> sudoku_can_place (Some two_holes) 9 7 5 \<and>
   \<not> sudoku_can_place (Some two_holes) 8 (- 1) 5 \<and>
   \<not> sudoku_can_place (Some two_holes) 8 7 10"
  using sudoku_can_place_correct[of two_holes 8 7 5] sudoku_can_place_correct[of two_holes 8 7 3]
    two_holes_can_place
  by simp

text \<open>
  C6: the removal loop ends after at most 2000 passes. It is the body iterated \<open>n\<close> times
  for some \<open>n\<close> of at most \<open>max_tries\<close> = 2000, the guard holding before each pass and
  failing after the last, and it ends with \<^verbatim>\<open>tries\<close> = \<open>n\<close>: every pass adds one to
  \<^verbatim>\<open>tries\<close>, the pass that picks an empty cell and changes nothing else included. So
  \<open>sudoku_generate_puzzle\<close> ends with \<^verbatim>\<open>tries\<close> at most 2000. Nothing else is tried
  again: the solution \<open>sudoku_generate_puzzle\<close> returns is that of its one call of
  \<open>sudoku_generate_solution\<close>, and on a valid board \<open>sudoku_solve\<close> reports the outcome of
  one search.
\<close>

theorem removal_loop_bounded:
  "max_tries = 2000 \<and>
   (\<exists>n. n \<le> max_tries \<and>
        carve_loop srand target (0, p, st) = (carve_body srand ^^ n) (0, p, st) \<and>
        (\<forall>k<n. carve_guard target ((carve_body srand ^^ k) (0, p, st))) \<and>
        \<not> carve_guard target ((carve_body srand ^^ n) (0, p, st)) \<and>
        fst (carve_loop srand target (0, p, st)) = n) \<and>
   fst (carve_body srand (tries, q, u)) = tries + 1 \<and>
   (cell q (fst (rand_int 9 u)) (fst (rand_int 9 (snd (rand_int 9 u)))) = 0 \<longrightarrow>
      carve_body srand (tries, q, u) = (tries + 1, q, snd (rand_int 9 (snd (rand_int 9 u))))) \<and>
   snd (sudoku_generate_puzzle_run srand out_puzzle out_solution d st) \<le> max_tries \<and>
   fst (snd (snd (sudoku_generate_puzzle srand (Some p0) (Some s0) d st))) =
     fst (snd (sudoku_generate_solution srand (Some s0) (seed_if_needed srand st))) \<and>
   (sudoku_is_valid_partial (Some b) \<longrightarrow>
      fst (sudoku_solve srand (Some b) st) =
        (if fst (solve_backtrack b (seed_if_needed srand st)) then SUDOKU_OK
         else SUDOKU_ERR_UNSOLVABLE))"
proof (intro conjI impI)
  show "max_tries = 2000" by (simp add: max_tries_def)
next
  from generate_puzzle_run_Some[of srand s0 st d p0]
  show "fst (snd (snd (sudoku_generate_puzzle srand (Some p0) (Some s0) d st))) =
     fst (snd (sudoku_generate_solution srand (Some s0) (seed_if_needed srand st)))"
    by (auto simp add: sudoku_generate_puzzle_def)
next
  assume "sudoku_is_valid_partial (Some b)"
  then show "fst (sudoku_solve srand (Some b) st) =
        (if fst (solve_backtrack b (seed_if_needed srand st)) then SUDOKU_OK
         else SUDOKU_ERR_UNSOLVABLE)"
    by (cases "solve_backtrack b (seed_if_needed srand st)") (simp add: sudoku_solve_def)
next
  from carve_loop_iterates[where s = "(0, p, st)" and srand = srand and target = target]
  obtain n where
    n: "n \<le> max_tries - fst (0::nat, p, st)"
      "carve_loop srand target (0, p, st) = (carve_body srand ^^ n) (0, p, st)"
      "\<forall>k<n. carve_guard target ((carve_body srand ^^ k) (0, p, st))"
      "\<not> carve_guard target ((carve_body srand ^^ n) (0, p, st))"
    by blast
  from n(2) have "fst (carve_loop srand target (0, p, st)) = n"
    by (simp add: fst_carve_iterate)
  with n show "\<exists>n. n \<le> max_tries \<and>
        carve_loop srand target (0, p, st) = (carve_body srand ^^ n) (0, p, st) \<and>
        (\<forall>k<n. carve_guard target ((carve_body srand ^^ k) (0, p, st))) \<and>
        \<not> carve_guard target ((carve_body srand ^^ n) (0, p, st)) \<and>
        fst (carve_loop srand target (0, p, st)) = n"
    by auto
next
  show "fst (carve_body srand (tries, q, u)) = tries + 1"
    by (simp add: fst_carve_body)
next
  assume "cell q (fst (rand_int 9 u)) (fst (rand_int 9 (snd (rand_int 9 u)))) = 0"
  then show "carve_body srand (tries, q, u) =
      (tries + 1, q, snd (rand_int 9 (snd (rand_int 9 u))))"
    by (intro carve_body_skip[where st = u and rr = "fst (rand_int 9 u)"
          and ?st1.0 = "snd (rand_int 9 u)"]) simp_all
next
  show "snd (sudoku_generate_puzzle_run srand out_puzzle out_solution d st) \<le> max_tries"
  proof (cases "out_puzzle = None \<or> out_solution = None")
    case True
    then show ?thesis by (simp add: generate_puzzle_run_null)
  next
    case False
    then obtain p0 s0 where out: "out_puzzle = Some p0" "out_solution = Some s0" by auto
    from generate_puzzle_run_Some[of srand s0 st d p0] obtain s st1 tries1 p1 st2 where
      l: "carve_loop srand (sudoku_holes_for_difficulty d) (0, s, st1) = (tries1, p1, st2)" and
      r: "sudoku_generate_puzzle_run srand (Some p0) (Some s0) d st =
        ((SUDOKU_OK, Some p1, Some s, st2), tries1)"
      by blast
    from carve_loop_iterates[where s = "(0, s, st1)" and srand = srand
        and target = "sudoku_holes_for_difficulty d"]
    obtain n where "n \<le> max_tries"
      "carve_loop srand (sudoku_holes_for_difficulty d) (0, s, st1) =
        (carve_body srand ^^ n) (0, s, st1)"
      by auto
    with l have "tries1 \<le> max_tries"
      using fst_carve_iterate[where srand = srand and k = n and s = "(0, s, st1)"] by simp
    with r out show ?thesis by simp
  qed
qed

theorem removal_loop_bounded_witness:
  "max_tries = 2000 \<and>
   fst (carve_loop srand_zero 1 (0, example_grid, seeded_zero)) = 1 \<and>
   carve_loop srand_zero 1 (0, example_grid, seeded_zero) =
     (carve_body srand_zero ^^ 1) (0, example_grid, seeded_zero) \<and>
   carve_guard 1 ((carve_body srand_zero ^^ 0) (0, example_grid, seeded_zero)) \<and>
   \<not> carve_guard 1 ((carve_body srand_zero ^^ 1) (0, example_grid, seeded_zero)) \<and>
   cell dead_end (fst (rand_int 9 seeded_zero))
     (fst (rand_int 9 (snd (rand_int 9 seeded_zero)))) = 0 \<and>
   carve_body srand_zero (7, dead_end, seeded_zero) =
     (8, dead_end, snd (rand_int 9 (snd (rand_int 9 seeded_zero)))) \<and>
   sudoku_is_valid_partial (Some dead_end) \<and>
   fst (sudoku_solve srand_zero (Some dead_end) unseeded_zero) = SUDOKU_ERR_UNSOLVABLE"
proof -
  note t = removal_loop_bounded[where srand = srand_zero and target = 1 and p = example_grid
      and st = seeded_zero and tries = 7 and q = dead_end and u = seeded_zero]
  have "fst (sudoku_solve srand_zero (Some dead_end) unseeded_zero) = SUDOKU_ERR_UNSOLVABLE"
    using removal_loop_bounded[where srand = srand_zero and b = dead_end
        and st = unseeded_zero] dead_end_valid dead_end_exhausts
    by simp
  note d = this dead_end_valid
  from t obtain n where n:
    "carve_loop srand_zero 1 (0, example_grid, seeded_zero) =
       (carve_body srand_zero ^^ n) (0, example_grid, seeded_zero)"
    "\<forall>k<n. carve_guard 1 ((carve_body srand_zero ^^ k) (0, example_grid, seeded_zero))"
    "\<not> carve_guard 1 ((carve_body srand_zero ^^ n) (0, example_grid, seeded_zero))"
    "fst (carve_loop srand_zero 1 (0, example_grid, seeded_zero)) = n"
    by blast
  from n(4) one_pass(3) have "n = 1" by simp
  moreover have e: "cell dead_end (fst (rand_int 9 seeded_zero))
     (fst (rand_int 9 (snd (rand_int 9 seeded_zero)))) = 0"
    by (simp add: rand_int_seeded_zero dead_end_first_cell)
  ultimately show ?thesis using n t d by simp
qed

text \<open>
  C7: on a board without a zero cell that passes \<open>sudoku_is_valid_partial\<close>,
  \<open>sudoku_solve\<close> returns \<open>SUDOKU_OK\<close> and leaves the board as it was; the search draws
  no random number.
\<close>

theorem sudoku_solve_solved_board:
  "no_empty_cell b \<Longrightarrow> sudoku_is_valid_partial (Some b) \<Longrightarrow>
     sudoku_solve srand (Some b) st = (SUDOKU_OK, Some b, seed_if_needed srand st)"
  by (simp add: sudoku_solve_search solve_backtrack_full)

theorem sudoku_solve_solved_board_witness:
  "no_empty_cell example_grid \<and> sudoku_is_valid_partial (Some example_grid) \<and>
   sudoku_solve srand_zero (Some example_grid) unseeded_zero =
     (SUDOKU_OK, Some example_grid, seed_if_needed srand_zero unseeded_zero)"
  using sudoku_solve_solved_board[OF example_grid_no_empty example_grid_valid]
    example_grid_no_empty example_grid_valid
  by simp

text \<open>
  C8: \<open>sudoku_seed\<close> leaves a state that depends on the seed only. So two runs that seed
  with the same value and then call \<open>sudoku_generate_puzzle\<close> see the same result, the
  same 81 cells in the puzzle and in the solution and the same state of the stream,
  however the stream stood before and whatever the boards handed in held; and so for the
  call that follows. From a state that was never seeded, \<open>sudoku_generate_puzzle\<close>,
  \<open>sudoku_generate_solution\<close> and \<open>sudoku_solve\<close> return what they return after
  \<open>sudoku_seed 0\<close>. \<^verbatim>\<open>srand\<close> is a function of the seed, as the C standard has it.
\<close>

theorem generation_deterministic_in_seed:
  "sudoku_seed srand seed st1 = sudoku_seed srand seed st2 \<and>
   sudoku_generate_puzzle srand out_puzzle out_solution d (sudoku_seed srand seed st1) =
     sudoku_generate_puzzle srand out_puzzle out_solution d (sudoku_seed srand seed st2) \<and>
   observed (sudoku_generate_puzzle srand (Some p1) (Some s1) d (sudoku_seed srand seed st1)) =
     observed (sudoku_generate_puzzle srand (Some p2) (Some s2) d (sudoku_seed srand seed st2)) \<and>
   observed (sudoku_generate_puzzle srand (Some p3) (Some s3) d'
       (snd (snd (snd (sudoku_generate_puzzle srand (Some p1) (Some s1) d
          (sudoku_seed srand seed st1)))))) =
     observed (sudoku_generate_puzzle srand (Some p4) (Some s4) d'
       (snd (snd (snd (sudoku_generate_puzzle srand (Some p2) (Some s2) d
          (sudoku_seed srand seed st2)))))) \<and>
   (\<not> g_seeded st \<longrightarrow>
      sudoku_generate_puzzle srand (Some p0) (Some s0) d st =
        sudoku_generate_puzzle srand (Some p0) (Some s0) d (sudoku_seed srand 0 st) \<and>
      sudoku_generate_solution srand (Some s0) st =
        sudoku_generate_solution srand (Some s0) (sudoku_seed srand 0 st) \<and>
      sudoku_solve srand (Some b) st = sudoku_solve srand (Some b) (sudoku_seed srand 0 st) \<and>
      observed (sudoku_generate_puzzle srand (Some p1) (Some s1) d st) =
        observed (sudoku_generate_puzzle srand (Some p2) (Some s2) d (sudoku_seed srand 0 st)))"
proof (intro conjI impI)
  show eq: "sudoku_seed srand seed st1 = sudoku_seed srand seed st2"
    by (simp add: sudoku_seed_def)
  then show "sudoku_generate_puzzle srand out_puzzle out_solution d (sudoku_seed srand seed st1) =
     sudoku_generate_puzzle srand out_puzzle out_solution d (sudoku_seed srand seed st2)"
    by simp
  from eq show first: "observed (sudoku_generate_puzzle srand (Some p1) (Some s1) d
        (sudoku_seed srand seed st1)) =
     observed (sudoku_generate_puzzle srand (Some p2) (Some s2) d (sudoku_seed srand seed st2))"
    using generate_puzzle_buffers[of srand p1 s1 d "sudoku_seed srand seed st2" p2 s2] by simp
  from observed_state[OF first]
  show "observed (sudoku_generate_puzzle srand (Some p3) (Some s3) d'
       (snd (snd (snd (sudoku_generate_puzzle srand (Some p1) (Some s1) d
          (sudoku_seed srand seed st1)))))) =
     observed (sudoku_generate_puzzle srand (Some p4) (Some s4) d'
       (snd (snd (snd (sudoku_generate_puzzle srand (Some p2) (Some s2) d
          (sudoku_seed srand seed st2))))))"
    using generate_puzzle_buffers[of srand p3 s3 d' _ p4 s4] by simp
next
  assume u: "\<not> g_seeded st"
  have s: "seed_if_needed srand st = sudoku_seed srand 0 st"
    "seed_if_needed srand (sudoku_seed srand 0 st) = sudoku_seed srand 0 st"
    using u by (simp_all add: seed_if_needed_unseeded seed_if_needed_seeded)
  show same: "sudoku_generate_puzzle srand (Some p0) (Some s0) d st =
      sudoku_generate_puzzle srand (Some p0) (Some s0) d (sudoku_seed srand 0 st)" for p0 s0
    by (simp add: sudoku_generate_puzzle_def sudoku_generate_puzzle_run_def s)
  show "sudoku_generate_solution srand (Some s0) st =
      sudoku_generate_solution srand (Some s0) (sudoku_seed srand 0 st)"
    by (simp add: sudoku_generate_solution_def s)
  show "sudoku_solve srand (Some b) st = sudoku_solve srand (Some b) (sudoku_seed srand 0 st)"
    by (simp add: sudoku_solve_def s)
  show "observed (sudoku_generate_puzzle srand (Some p1) (Some s1) d st) =
      observed (sudoku_generate_puzzle srand (Some p2) (Some s2) d (sudoku_seed srand 0 st))"
    using generate_puzzle_buffers[of srand p1 s1 d "sudoku_seed srand 0 st" p2 s2]
      same[of p1 s1] by simp
qed

theorem generation_deterministic_in_seed_witness:
  "\<not> g_seeded unseeded_counting \<and>
   rows_of dead_end \<noteq> rows_of two_holes \<and> rows_of repeated_row \<noteq> rows_of example_grid \<and>
   observed (sudoku_generate_puzzle srand_cycle (Some repeated_row) (Some dead_end)
       SUDOKU_DIFFICULTY_MEDIUM unseeded_counting) =
     observed (sudoku_generate_puzzle srand_cycle (Some example_grid) (Some two_holes)
       SUDOKU_DIFFICULTY_MEDIUM (sudoku_seed srand_cycle 0 unseeded_counting)) \<and>
   sudoku_generate_puzzle srand_cycle (Some repeated_row) (Some dead_end)
       SUDOKU_DIFFICULTY_MEDIUM unseeded_counting =
     sudoku_generate_puzzle srand_cycle (Some repeated_row) (Some dead_end)
       SUDOKU_DIFFICULTY_MEDIUM (sudoku_seed srand_cycle 0 unseeded_counting) \<and>
   sudoku_generate_solution srand_cycle (Some dead_end) unseeded_counting =
     sudoku_generate_solution srand_cycle (Some dead_end)
       (sudoku_seed srand_cycle 0 unseeded_counting) \<and>
   sudoku_solve srand_cycle (Some two_holes) unseeded_counting =
     sudoku_solve srand_cycle (Some two_holes) (sudoku_seed srand_cycle 0 unseeded_counting) \<and>
   observed (sudoku_generate_puzzle srand_cycle (Some repeated_row) (Some dead_end)
       SUDOKU_DIFFICULTY_MEDIUM (sudoku_seed srand_cycle 42 unseeded_counting)) =
     observed (sudoku_generate_puzzle srand_cycle (Some example_grid) (Some two_holes)
       SUDOKU_DIFFICULTY_MEDIUM (sudoku_seed srand_cycle 42 seeded_zero)) \<and>
   observed (sudoku_generate_puzzle srand_cycle (Some two_holes) (Some example_grid)
       SUDOKU_DIFFICULTY_HARD
       (snd (snd (snd (sudoku_generate_puzzle srand_cycle (Some repeated_row) (Some dead_end)
          SUDOKU_DIFFICULTY_MEDIUM (sudoku_seed srand_cycle 42 unseeded_counting)))))) =
     observed (sudoku_generate_puzzle srand_cycle (Some dead_end) (Some repeated_row)
       SUDOKU_DIFFICULTY_HARD
       (snd (snd (snd (sudoku_generate_puzzle srand_cycle (Some example_grid) (Some two_holes)
          SUDOKU_DIFFICULTY_MEDIUM (sudoku_seed srand_cycle 42 seeded_zero))))))"
proof -
  have "\<not> g_seeded unseeded_counting" by (simp add: unseeded_counting_def)
  then show ?thesis
    using generation_deterministic_in_seed[where srand = srand_cycle and st = unseeded_counting
        and ?p0.0 = repeated_row and ?s0.0 = dead_end and d = SUDOKU_DIFFICULTY_MEDIUM
        and d' = SUDOKU_DIFFICULTY_HARD
        and b = two_holes and seed = 42 and ?st1.0 = unseeded_counting
        and ?st2.0 = seeded_zero and ?p1.0 = repeated_row and ?s1.0 = dead_end
        and ?p2.0 = example_grid and ?s2.0 = two_holes and ?p3.0 = two_holes
        and ?s3.0 = example_grid and ?p4.0 = dead_end and ?s4.0 = repeated_row]
      buffers_differ
    by blast
qed

text \<open>
  C9: \<open>sudoku_holes_for_difficulty\<close> is 35 for Easy, 45 for Medium, 55 for Hard, and 45
  for every other value of the enum's type.
\<close>

theorem sudoku_holes_for_difficulty_lookup:
  "sudoku_holes_for_difficulty SUDOKU_DIFFICULTY_EASY = 35 \<and>
   sudoku_holes_for_difficulty SUDOKU_DIFFICULTY_MEDIUM = 45 \<and>
   sudoku_holes_for_difficulty SUDOKU_DIFFICULTY_HARD = 55 \<and>
   (d \<noteq> SUDOKU_DIFFICULTY_EASY \<and> d \<noteq> SUDOKU_DIFFICULTY_MEDIUM \<and> d \<noteq> SUDOKU_DIFFICULTY_HARD \<longrightarrow>
      sudoku_holes_for_difficulty d = 45)"
  by (simp add: sudoku_holes_for_difficulty_def SUDOKU_DIFFICULTY_EASY_def
      SUDOKU_DIFFICULTY_MEDIUM_def SUDOKU_DIFFICULTY_HARD_def)

theorem sudoku_holes_for_difficulty_lookup_witness:
  "(7::int) \<noteq> SUDOKU_DIFFICULTY_EASY \<and> 7 \<noteq> SUDOKU_DIFFICULTY_MEDIUM \<and>
   7 \<noteq> SUDOKU_DIFFICULTY_HARD \<and> sudoku_holes_for_difficulty 7 = 45 \<and>
   (- 1::int) \<noteq> SUDOKU_DIFFICULTY_EASY \<and> - 1 \<noteq> SUDOKU_DIFFICULTY_MEDIUM \<and>
   - 1 \<noteq> SUDOKU_DIFFICULTY_HARD \<and> sudoku_holes_for_difficulty (- 1) = 45"
  using sudoku_holes_for_difficulty_lookup[of 7] sudoku_holes_for_difficulty_lookup[of "- 1"]
  by (simp add: SUDOKU_DIFFICULTY_EASY_def SUDOKU_DIFFICULTY_MEDIUM_def
      SUDOKU_DIFFICULTY_HARD_def)

text \<open>
  C10: when \<open>sudoku_solve\<close> is given a board and returns anything but \<open>SUDOKU_OK\<close>, the
  board is as it was before the call: the check of the input writes nothing, and a search
  that fails has reset every cell it had filled.
\<close>

theorem sudoku_solve_failure_atomic:
  "sudoku_solve srand (Some b) st = (r, b', st') \<Longrightarrow> r \<noteq> SUDOKU_OK \<Longrightarrow> b' = Some b"
  by (rule sudoku_solve_not_OK_board)

theorem sudoku_solve_failure_atomic_witness:
  "fst (sudoku_solve srand_zero (Some dead_end) unseeded_zero) \<noteq> SUDOKU_OK \<and>
   fst (snd (sudoku_solve srand_zero (Some dead_end) unseeded_zero)) = Some dead_end \<and>
   fst (sudoku_solve srand_zero (Some repeated_row) unseeded_zero) \<noteq> SUDOKU_OK \<and>
   fst (snd (sudoku_solve srand_zero (Some repeated_row) unseeded_zero)) = Some repeated_row"
proof -
  obtain r1 b1 st1 where
    r1: "sudoku_solve srand_zero (Some dead_end) unseeded_zero = (r1, b1, st1)"
    by (cases "sudoku_solve srand_zero (Some dead_end) unseeded_zero")
  obtain ok q u where "solve_backtrack dead_end (seed_if_needed srand_zero unseeded_zero) = (ok, q, u)"
    by (cases "solve_backtrack dead_end (seed_if_needed srand_zero unseeded_zero)")
  with dead_end_exhausts dead_end_valid r1 have n1: "r1 \<noteq> SUDOKU_OK"
    by (auto simp add: sudoku_solve_def)
  obtain r2 b2 st2 where
    r2: "sudoku_solve srand_zero (Some repeated_row) unseeded_zero = (r2, b2, st2)"
    by (cases "sudoku_solve srand_zero (Some repeated_row) unseeded_zero")
  with repeated_row_invalid have n2: "r2 \<noteq> SUDOKU_OK"
    by (simp add: sudoku_solve_invalid)
  from sudoku_solve_failure_atomic[OF r1 n1] sudoku_solve_failure_atomic[OF r2 n2] r1 r2 n1 n2
  show ?thesis by simp
qed

end
